theory Spec2Isabelle
  imports Main "HOL-Library.Word"
begin

section \<open>geecache: the eviction store, the cache group and the peer server\<close>

text \<open>
  A shallow embedding of \<^verbatim>\<open>geecache/lru/lru.go\<close>, of the group orchestration
  (\<^verbatim>\<open>Group\<close>, \<^verbatim>\<open>NewGroup\<close>, \<^verbatim>\<open>GetGroup\<close>) and of \<^verbatim>\<open>HTTPPool.ServeHTTP\<close>.
  Go's \<^verbatim>\<open>int64\<close> is a 64-bit word compared with the signed order; Go's \<^verbatim>\<open>string\<close> and
  \<^verbatim>\<open>[]byte\<close> are byte sequences, here lists of \<^typ>\<open>char\<close> (a \<^typ>\<open>char\<close> is one byte).
  Pointers are addresses into an explicit store. Effects outside the modelled structures
  (the eviction callback, the loader, the peers) are transformers of a world \<open>'w\<close>.
  Logging is not modelled.
\<close>

subsection \<open>container/list, as far as lru.go uses it\<close>

type_synonym int64 = "64 word"
type_synonym addr = nat

text \<open>
  A \<^verbatim>\<open>list.List\<close> is the sequence of its element pointers, front first.
  \<^verbatim>\<open>MoveToFront\<close> and \<^verbatim>\<open>Remove\<close> do nothing for an element that is not in the list.
\<close>

definition PushFront :: "addr \<Rightarrow> addr list \<Rightarrow> addr list" where
  "PushFront e l = e # l"

definition MoveToFront :: "addr \<Rightarrow> addr list \<Rightarrow> addr list" where
  "MoveToFront e l = (if e \<in> set l then e # remove1 e l else l)"

definition Back :: "addr list \<Rightarrow> addr option" where
  "Back l = (if l = [] then None else Some (last l))"

definition Remove :: "addr \<Rightarrow> addr list \<Rightarrow> addr list" where
  "Remove e l = remove1 e l"

subsection \<open>lru.Cache\<close>

text \<open>\<^verbatim>\<open>type entry struct { key string; value Value }\<close>\<close>

record 'v entry =
  key :: string
  val :: 'v

text \<open>
  \<^verbatim>\<open>Cache\<close>: the fields of the Go struct, and \<open>elems\<close>, the store of the entries that the
  list elements and the map point to (an address is an index; a new element is appended
  and nothing is reclaimed).
  The interface \<^verbatim>\<open>Value\<close> is a type \<open>'v\<close> with its method \<open>Len :: 'v \<Rightarrow> int\<close>, passed
  to the operations that call it.
\<close>

record ('v, 'w) Cache =
  maxBytes :: int64
  nbytes :: int64
  ll :: "addr list"
  cache :: "string \<rightharpoonup> addr"
  OnEvicted :: "(string \<Rightarrow> 'v \<Rightarrow> 'w \<Rightarrow> 'w) option"
  elems :: "'v entry list"

definition New :: "int64 \<Rightarrow> (string \<Rightarrow> 'v \<Rightarrow> 'w \<Rightarrow> 'w) option \<Rightarrow> ('v, 'w) Cache" where
  "New mb onEvicted =
     \<lparr>maxBytes = mb, nbytes = 0, ll = [], cache = Map.empty,
      OnEvicted = onEvicted, elems = []\<rparr>"

definition Get :: "('v, 'w) Cache \<Rightarrow> string \<Rightarrow> 'v option \<times> ('v, 'w) Cache" where
  "Get c k =
     (case cache c k of
        Some ele \<Rightarrow> (Some (val (elems c ! ele)), c\<lparr>ll := MoveToFront ele (ll c)\<rparr>)
      | None \<Rightarrow> (None, c))"

text \<open>\<^verbatim>\<open>int64(len(kv.key)) + int64(kv.value.Len())\<close>\<close>

definition entry_bytes :: "('v \<Rightarrow> int) \<Rightarrow> 'v entry \<Rightarrow> int64" where
  "entry_bytes Len kv = of_nat (length (key kv)) + of_int (Len (val kv))"

definition RemoveOldest ::
  "('v \<Rightarrow> int) \<Rightarrow> ('v, 'w) Cache \<Rightarrow> 'w \<Rightarrow> ('v, 'w) Cache \<times> 'w" where
  "RemoveOldest Len c w =
     (case Back (ll c) of
        None \<Rightarrow> (c, w)
      | Some ele \<Rightarrow>
          let kv = elems c ! ele;
              c1 = c\<lparr>ll := Remove ele (ll c)\<rparr>;
              c2 = c1\<lparr>cache := (cache c1)(key kv := None)\<rparr>;
              c3 = c2\<lparr>nbytes := nbytes c2 - (of_nat (length (key kv)) + of_int (Len (val kv)))\<rparr>
          in (case OnEvicted c3 of
                None \<Rightarrow> (c3, w)
              | Some f \<Rightarrow> (c3, f (key kv) (val kv) w)))"

text \<open>
  The loop \<^verbatim>\<open>for c.maxBytes != 0 && c.maxBytes < c.nbytes { c.RemoveOldest() }\<close>.
  It need not end (\<^verbatim>\<open>RemoveOldest\<close> does nothing on an empty list), so it lives in the
  option monad: \<open>None\<close> is a loop that runs forever.
\<close>

partial_function (option) evict ::
  "('v \<Rightarrow> int) \<Rightarrow> ('v, 'w) Cache \<times> 'w \<Rightarrow> (('v, 'w) Cache \<times> 'w) option" where
  "evict Len cw =
     (if maxBytes (fst cw) \<noteq> 0 \<and> maxBytes (fst cw) <s nbytes (fst cw)
      then evict Len (RemoveOldest Len (fst cw) (snd cw))
      else Some cw)"

text \<open>The two branches of \<^verbatim>\<open>Add\<close> before the loop.\<close>

definition Add_store :: "('v \<Rightarrow> int) \<Rightarrow> ('v, 'w) Cache \<Rightarrow> string \<Rightarrow> 'v \<Rightarrow> ('v, 'w) Cache" where
  "Add_store Len c k v =
     (case cache c k of
        Some ele \<Rightarrow>
          let c1 = c\<lparr>ll := MoveToFront ele (ll c)\<rparr>;
              kv = elems c1 ! ele;
              c2 = c1\<lparr>nbytes := nbytes c1 + (of_int (Len v) - of_int (Len (val kv)))\<rparr>
          in c2\<lparr>elems := (elems c2)[ele := kv\<lparr>val := v\<rparr>]\<rparr>
      | None \<Rightarrow>
          let ele = length (elems c);
              c1 = c\<lparr>elems := elems c @ [\<lparr>key = k, val = v\<rparr>], ll := PushFront ele (ll c)\<rparr>;
              c2 = c1\<lparr>cache := (cache c1)(k \<mapsto> ele)\<rparr>
          in c2\<lparr>nbytes := nbytes c2 + (of_nat (length k) + of_int (Len v))\<rparr>)"

definition Add ::
  "('v \<Rightarrow> int) \<Rightarrow> ('v, 'w) Cache \<Rightarrow> string \<Rightarrow> 'v \<Rightarrow> 'w \<Rightarrow> (('v, 'w) Cache \<times> 'w) option" where
  "Add Len c k v w = evict Len (Add_store Len c k v, w)"

definition Len_Cache :: "('v, 'w) Cache \<Rightarrow> nat" where
  "Len_Cache c = length (ll c)"

subsection \<open>Well-formed stores and runs of operations\<close>

text \<open>
  The representation invariant of \<^verbatim>\<open>Cache\<close>: the list holds each element once, every
  element of the list is the map's value at its own key, every value of the map is an
  element of the list stored under that key, and \<open>nbytes\<close> is the sum of the sizes of the
  listed entries (in \<^verbatim>\<open>int64\<close> arithmetic).
\<close>

definition cache_inv :: "('v \<Rightarrow> int) \<Rightarrow> ('v, 'w) Cache \<Rightarrow> bool" where
  "cache_inv Len c \<longleftrightarrow>
     distinct (ll c) \<and>
     (\<forall>a \<in> set (ll c). a < length (elems c) \<and> cache c (key (elems c ! a)) = Some a) \<and>
     (\<forall>k a. cache c k = Some a \<longrightarrow> a \<in> set (ll c) \<and> key (elems c ! a) = k) \<and>
     nbytes c = (\<Sum>a\<leftarrow>ll c. entry_bytes Len (elems c ! a))"

text \<open>What the loop of \<^verbatim>\<open>Add\<close> guarantees when it ends.\<close>

definition evict_post ::
  "('v \<Rightarrow> int) \<Rightarrow> ('v, 'w) Cache \<times> 'w \<Rightarrow> ('v, 'w) Cache \<times> 'w \<Rightarrow> bool" where
  "evict_post Len cw cw' \<longleftrightarrow> (cache_inv Len (fst cw) \<longrightarrow>
     cache_inv Len (fst cw') \<and> maxBytes (fst cw') = maxBytes (fst cw) \<and>
     OnEvicted (fst cw') = OnEvicted (fst cw) \<and>
     (maxBytes (fst cw) = 0 \<or> nbytes (fst cw') \<le>s maxBytes (fst cw)))"

definition within_capacity :: "('v, 'w) Cache \<Rightarrow> bool" where
  "within_capacity c \<longleftrightarrow> maxBytes c = 0 \<or> nbytes c \<le>s maxBytes c"

text \<open>A client of the store: a sequence of calls of its three mutating methods.\<close>

datatype 'v op = OpGet string | OpAdd string 'v | OpRemoveOldest

fun apply_op ::
  "('v \<Rightarrow> int) \<Rightarrow> 'v op \<Rightarrow> ('v, 'w) Cache \<times> 'w \<Rightarrow> (('v, 'w) Cache \<times> 'w) option" where
  "apply_op Len (OpGet k) (c, w) = Some (snd (Get c k), w)"
| "apply_op Len (OpAdd k v) (c, w) = Add Len c k v w"
| "apply_op Len OpRemoveOldest (c, w) = Some (RemoveOldest Len c w)"

fun run_ops ::
  "('v \<Rightarrow> int) \<Rightarrow> 'v op list \<Rightarrow> ('v, 'w) Cache \<times> 'w \<Rightarrow> (('v, 'w) Cache \<times> 'w) option" where
  "run_ops Len [] cw = Some cw"
| "run_ops Len (x # xs) cw =
     (case apply_op Len x cw of None \<Rightarrow> None | Some cw' \<Rightarrow> run_ops Len xs cw')"

definition Adds ::
  "('v \<Rightarrow> int) \<Rightarrow> (string \<times> 'v) list \<Rightarrow> ('v, 'w) Cache \<times> 'w \<Rightarrow> (('v, 'w) Cache \<times> 'w) option" where
  "Adds Len kvs cw = run_ops Len (map (\<lambda>(k, v). OpAdd k v) kvs) cw"

text \<open>The keys of the recency list, the value resident under a key, and the total size
  of the resident entries as a mathematical integer.\<close>

definition list_keys :: "('v, 'w) Cache \<Rightarrow> string set" where
  "list_keys c = set (map (\<lambda>a. key (elems c ! a)) (ll c))"

definition resident :: "('v, 'w) Cache \<Rightarrow> string \<Rightarrow> 'v option" where
  "resident c k = map_option (\<lambda>a. val (elems c ! a)) (cache c k)"

definition resident_bytes :: "('v \<Rightarrow> int) \<Rightarrow> ('v, 'w) Cache \<Rightarrow> int" where
  "resident_bytes Len c =
     (\<Sum>a\<leftarrow>ll c. int (length (key (elems c ! a))) + Len (val (elems c ! a)))"

text \<open>The size of an entry as a mathematical integer, and the call of \<^verbatim>\<open>OnEvicted\<close> on an
  entry (nothing happens when the callback is nil).\<close>

definition entry_len :: "('v \<Rightarrow> int) \<Rightarrow> 'v entry \<Rightarrow> int" where
  "entry_len Len kv = int (length (key kv)) + Len (val kv)"

definition call_OnEvicted ::
  "(string \<Rightarrow> 'v \<Rightarrow> 'w \<Rightarrow> 'w) option \<Rightarrow> 'v entry \<Rightarrow> 'w \<Rightarrow> 'w" where
  "call_OnEvicted cb kv w = (case cb of None \<Rightarrow> w | Some f \<Rightarrow> f (key kv) (val kv) w)"

text \<open>A store for concrete evaluation: capacity 4, one resident entry of 2 bytes, and a
  callback that records the evicted entries in order.\<close>

definition one_entry_store :: "(string, (string \<times> string) list) Cache" where
  "one_entry_store =
     \<lparr>maxBytes = 4, nbytes = 2, ll = [0], cache = [''a'' \<mapsto> 0],
      OnEvicted = Some (\<lambda>k v w. w @ [(k, v)]), elems = [\<lparr>key = ''a'', val = ''x''\<rparr>]\<rparr>"

subsection \<open>geecache: byte views, the guarded store, call coalescing\<close>

text \<open>A Go \<^verbatim>\<open>error\<close> is the value made by \<^verbatim>\<open>fmt.Errorf\<close>, with its message; a panic carries
  its argument.\<close>

datatype error = Errorf string

datatype panic = Panic string

text \<open>
  Modelled from the spec: \<^verbatim>\<open>ByteView\<close> with \<^verbatim>\<open>Len\<close>, \<^verbatim>\<open>ByteSlice\<close> and \<^verbatim>\<open>cloneBytes\<close>
  (byteview.go is not among the sources; the group builds the value as
  \<^verbatim>\<open>ByteView{b: ...}\<close>). The spec has a value as an immutable byte payload with its byte
  length for size accounting, copied where it is read: \<^verbatim>\<open>Len\<close> is the number of bytes,
  \<^verbatim>\<open>ByteSlice\<close> and \<^verbatim>\<open>cloneBytes\<close> return a copy.
\<close>

datatype ByteView = ByteView (ByteView_b: string)

definition Len_ByteView :: "ByteView \<Rightarrow> int" where
  "Len_ByteView v = int (length (ByteView_b v))"

definition cloneBytes :: "string \<Rightarrow> string" where
  "cloneBytes bs = bs"

definition ByteSlice :: "ByteView \<Rightarrow> string" where
  "ByteSlice v = cloneBytes (ByteView_b v)"

text \<open>
  Modelled from the spec: the type \<^verbatim>\<open>cache\<close> of the field \<^verbatim>\<open>mainCache\<close> and its methods
  \<^verbatim>\<open>get\<close> and \<^verbatim>\<open>add\<close> (cache.go is not among the sources). The spec has every access of
  the eviction store serialized under one lock and delegated to the store's \<^verbatim>\<open>get\<close> and
  \<^verbatim>\<open>add\<close>; \<^verbatim>\<open>NewGroup\<close> builds it as \<^verbatim>\<open>cache{cacheBytes: cacheBytes}\<close>, so the store itself is
  created at the first \<^verbatim>\<open>add\<close>, with capacity \<open>cacheBytes\<close> and no eviction callback, and a
  \<^verbatim>\<open>get\<close> before that misses. The lock has no sequential content.
\<close>

record 'w cache =
  cacheBytes :: int64
  lru :: "(ByteView, 'w) Cache option"

text \<open>Modelled from the spec: \<^verbatim>\<open>cache.add\<close>, which creates the store when there is none
  and delegates to \<^verbatim>\<open>lru.Cache.Add\<close>.\<close>

definition cache_add ::
  "'w cache \<Rightarrow> string \<Rightarrow> ByteView \<Rightarrow> 'w \<Rightarrow> ('w cache \<times> 'w) option" where
  "cache_add mc k v w =
     (let c = (case lru mc of None \<Rightarrow> New (cacheBytes mc) None | Some c \<Rightarrow> c)
      in case Add Len_ByteView c k v w of
           None \<Rightarrow> None
         | Some (c', w') \<Rightarrow> Some (mc\<lparr>lru := Some c'\<rparr>, w'))"

text \<open>Modelled from the spec: \<^verbatim>\<open>cache.get\<close>, a miss when there is no store yet and
  \<^verbatim>\<open>lru.Cache.Get\<close> otherwise.\<close>

definition cache_get :: "'w cache \<Rightarrow> string \<Rightarrow> ByteView option \<times> 'w cache" where
  "cache_get mc k =
     (case lru mc of
        None \<Rightarrow> (None, mc)
      | Some c \<Rightarrow> (case Get c k of (r, c') \<Rightarrow> (r, mc\<lparr>lru := Some c'\<rparr>)))"

text \<open>
  Modelled from the spec: \<^verbatim>\<open>singleflight.Group\<close> and its method \<^verbatim>\<open>Do\<close> (the package is not
  among the sources), for one thread of control. The in-flight table is the set of keys
  with a call in flight. \<^verbatim>\<open>Do\<close> registers the key, runs the function, removes the record
  and returns the function's result. A caller that finds the key in flight waits for
  that call; with nobody else running, it waits forever (\<open>None\<close>).
\<close>

record singleflight_Group =
  inflight :: "string set"

subsection \<open>geecache: Group\<close>

text \<open>The interfaces \<^verbatim>\<open>Getter\<close>, \<^verbatim>\<open>PeerGetter\<close> and \<^verbatim>\<open>PeerPicker\<close>: one method each
  (\<^verbatim>\<open>Get(key)\<close>, \<^verbatim>\<open>Get(group, key)\<close>, \<^verbatim>\<open>PickPeer(key)\<close>), acting on the world outside the
  group. Any implementation can stand for them. A nil interface value is \<open>None\<close>.\<close>

type_synonym 'w Getter = "string \<Rightarrow> 'w \<Rightarrow> (error + string) \<times> 'w"
type_synonym 'w PeerGetter = "string \<Rightarrow> string \<Rightarrow> 'w \<Rightarrow> (error + string) \<times> 'w"
type_synonym 'w PeerPicker = "string \<Rightarrow> 'w \<Rightarrow> 'w PeerGetter option \<times> 'w"

record 'w Group =
  name :: string
  getter :: "'w Getter"
  mainCache :: "'w cache"
  peers :: "'w PeerPicker option"
  loader :: singleflight_Group

text \<open>What a call on a group yields: the result or the error, the group and the world
  afterwards; \<open>None\<close> when the call never returns.\<close>

type_synonym 'w outcome = "((error + ByteView) \<times> 'w Group \<times> 'w) option"

text \<open>Modelled from the spec: \<^verbatim>\<open>singleflight.Group.Do\<close> as described above, on the
  in-flight table of the group's \<^verbatim>\<open>loader\<close>. The function it runs is the closure of
  \<^verbatim>\<open>load\<close>, which acts on the group and the world.\<close>

definition Do ::
  "'w Group \<Rightarrow> string \<Rightarrow> ('w Group \<Rightarrow> 'w \<Rightarrow> 'w outcome) \<Rightarrow> 'w \<Rightarrow> 'w outcome" where
  "Do g k fn w =
     (if k \<in> inflight (loader g) then None
      else case fn (g\<lparr>loader := (loader g)\<lparr>inflight := insert k (inflight (loader g))\<rparr>\<rparr>) w of
             None \<Rightarrow> None
           | Some (r, g', w') \<Rightarrow>
               Some (r, g'\<lparr>loader := (loader g')\<lparr>inflight := inflight (loader g') - {k}\<rparr>\<rparr>, w'))"

definition getFromPeer ::
  "'w Group \<Rightarrow> 'w PeerGetter \<Rightarrow> string \<Rightarrow> 'w \<Rightarrow> (error + ByteView) \<times> 'w" where
  "getFromPeer g peer k w =
     (case peer (name g) k w of
        (Inl err, w') \<Rightarrow> (Inl err, w')
      | (Inr bytes, w') \<Rightarrow> (Inr (ByteView bytes), w'))"

definition populateCache ::
  "'w Group \<Rightarrow> string \<Rightarrow> ByteView \<Rightarrow> 'w \<Rightarrow> ('w Group \<times> 'w) option" where
  "populateCache g k v w =
     (case cache_add (mainCache g) k v w of
        None \<Rightarrow> None
      | Some (mc, w') \<Rightarrow> Some (g\<lparr>mainCache := mc\<rparr>, w'))"

definition getLocally :: "'w Group \<Rightarrow> string \<Rightarrow> 'w \<Rightarrow> 'w outcome" where
  "getLocally g k w =
     (case getter g k w of
        (Inl err, w1) \<Rightarrow> Some (Inl err, g, w1)
      | (Inr bytes, w1) \<Rightarrow>
          let v = ByteView (cloneBytes bytes)
          in (case populateCache g k v w1 of
                None \<Rightarrow> None
              | Some (g', w2) \<Rightarrow> Some (Inr v, g', w2)))"

text \<open>The function literal that \<^verbatim>\<open>load\<close> hands to \<^verbatim>\<open>Do\<close>.\<close>

definition load_fn :: "string \<Rightarrow> 'w Group \<Rightarrow> 'w \<Rightarrow> 'w outcome" where
  "load_fn k g w =
     (case peers g of
        None \<Rightarrow> getLocally g k w
      | Some pick \<Rightarrow>
          (case pick k w of
             (None, w1) \<Rightarrow> getLocally g k w1
           | (Some peer, w1) \<Rightarrow>
               (case getFromPeer g peer k w1 of
                  (Inr v, w2) \<Rightarrow> Some (Inr v, g, w2)
                | (Inl err, w2) \<Rightarrow> getLocally g k w2)))"

definition load :: "'w Group \<Rightarrow> string \<Rightarrow> 'w \<Rightarrow> 'w outcome" where
  "load g k w = Do g k (load_fn k) w"

definition Group_Get :: "'w Group \<Rightarrow> string \<Rightarrow> 'w \<Rightarrow> 'w outcome" where
  "Group_Get g k w =
     (if k = [] then Some (Inl (Errorf ''key is required''), g, w)
      else case cache_get (mainCache g) k of
             (Some v, mc) \<Rightarrow> Some (Inr v, g\<lparr>mainCache := mc\<rparr>, w)
           | (None, mc) \<Rightarrow> load (g\<lparr>mainCache := mc\<rparr>) k w)"

text \<open>\<^verbatim>\<open>RegisterPeers\<close> stores whatever picker it is given, a nil one included.\<close>

definition RegisterPeers :: "'w Group \<Rightarrow> 'w PeerPicker option \<Rightarrow> panic + 'w Group" where
  "RegisterPeers g picker =
     (if peers g \<noteq> None then Inl (Panic ''RegisterPeerPicker called more than once'')
      else Inr (g\<lparr>peers := picker\<rparr>))"

subsection \<open>The registry of groups\<close>

text \<open>The package variable \<^verbatim>\<open>groups\<close> maps a name to a pointer; \<open>group_store\<close> holds the
  groups the pointers lead to (an address is an index, a new group is appended).\<close>

record 'w registry =
  groups :: "string \<rightharpoonup> addr"
  group_store :: "'w Group list"

definition NewGroup ::
  "string \<Rightarrow> int64 \<Rightarrow> 'w Getter option \<Rightarrow> 'w registry \<Rightarrow> panic + (addr \<times> 'w registry)" where
  "NewGroup nm cb gt st =
     (case gt of
        None \<Rightarrow> Inl (Panic ''nil Getter'')
      | Some f \<Rightarrow>
          let g = \<lparr>name = nm, getter = f, mainCache = \<lparr>cacheBytes = cb, lru = None\<rparr>,
                   peers = None, loader = \<lparr>inflight = {}\<rparr>\<rparr>;
              p = length (group_store st)
          in Inr (p, st\<lparr>group_store := group_store st @ [g], groups := (groups st)(nm \<mapsto> p)\<rparr>))"

definition GetGroup :: "string \<Rightarrow> 'w registry \<Rightarrow> addr option" where
  "GetGroup nm st = groups st nm"

subsection \<open>HTTPPool.ServeHTTP\<close>

definition defaultBasePath :: string where
  "defaultBasePath = ''/_geecache/''"

text \<open>Of \<^verbatim>\<open>HTTPPool\<close>, the fields that \<^verbatim>\<open>ServeHTTP\<close> reads.\<close>

record HTTPPool =
  self :: string
  basePath :: string

definition NewHTTPPool :: "string \<Rightarrow> HTTPPool" where
  "NewHTTPPool s = \<lparr>self = s, basePath = defaultBasePath\<rparr>"

text \<open>\<^verbatim>\<open>strings.HasPrefix\<close>, and \<^verbatim>\<open>strings.SplitN(s, "/", 2)\<close>: the text before the first
  slash and the text after it, or \<open>s\<close> alone when it has no slash.\<close>

definition HasPrefix :: "string \<Rightarrow> string \<Rightarrow> bool" where
  "HasPrefix s p \<longleftrightarrow> take (length p) s = p"

definition SplitN_slash_2 :: "string \<Rightarrow> string list" where
  "SplitN_slash_2 s =
     (if CHR ''/'' \<in> set s
      then [takeWhile (\<lambda>c. c \<noteq> CHR ''/'') s, tl (dropWhile (\<lambda>c. c \<noteq> CHR ''/'') s)]
      else [s])"

text \<open>What the handler leaves in the \<^verbatim>\<open>ResponseWriter\<close>. \<^verbatim>\<open>http.Error\<close> sets the status and
  a plain-text content type and writes the message followed by a newline.\<close>

record response =
  status :: nat
  Content_Type :: "string option"
  body :: string

definition http_Error :: "string \<Rightarrow> nat \<Rightarrow> response" where
  "http_Error msg code =
     \<lparr>status = code, Content_Type = Some ''text/plain; charset=utf-8'',
      body = msg @ [CHR 0x0A]\<rparr>"

definition StatusBadRequest :: nat where "StatusBadRequest = 400"
definition StatusNotFound :: nat where "StatusNotFound = 404"
definition StatusInternalServerError :: nat where "StatusInternalServerError = 500"
definition StatusOK :: nat where "StatusOK = 200"

definition ServeHTTP ::
  "HTTPPool \<Rightarrow> string \<Rightarrow> 'w registry \<Rightarrow> 'w \<Rightarrow> (panic + response \<times> 'w registry \<times> 'w) option" where
  "ServeHTTP p path st w =
     (if \<not> HasPrefix path (basePath p)
      then Some (Inl (Panic (''HTTPPool serving unexpected path: '' @ path)))
      else
        let parts = SplitN_slash_2 (drop (length (basePath p)) path)
        in if length parts \<noteq> 2
           then Some (Inr (http_Error ''bad request'' StatusBadRequest, st, w))
           else
             let groupName = parts ! 0; k = parts ! 1
             in (case GetGroup groupName st of
                   None \<Rightarrow>
                     Some (Inr (http_Error (''no suck group: '' @ groupName) StatusNotFound, st, w))
                 | Some a \<Rightarrow>
                     (case Group_Get (group_store st ! a) k w of
                        None \<Rightarrow> None
                      | Some (Inl (Errorf msg), g', w') \<Rightarrow>
                          Some (Inr (http_Error msg StatusInternalServerError,
                                     st\<lparr>group_store := (group_store st)[a := g']\<rparr>, w'))
                      | Some (Inr view, g', w') \<Rightarrow>
                          Some (Inr (\<lparr>status = StatusOK,
                                      Content_Type = Some ''application/octet-stream'',
                                      body = ByteSlice view\<rparr>,
                                     st\<lparr>group_store := (group_store st)[a := g']\<rparr>, w')))))"

subsection \<open>Well-formed groups, two consecutive lookups, example groups\<close>

text \<open>The store of a group, once created, is a well-formed \<^verbatim>\<open>lru.Cache\<close> with the capacity
  of the group and no eviction callback.\<close>

definition mainCache_inv :: "'w cache \<Rightarrow> bool" where
  "mainCache_inv mc \<longleftrightarrow>
     (case lru mc of
        None \<Rightarrow> True
      | Some c \<Rightarrow> cache_inv Len_ByteView c \<and> maxBytes c = cacheBytes mc \<and> OnEvicted c = None)"

text \<open>Two consecutive calls of \<^verbatim>\<open>Get\<close> for one key: both results, and the world after the
  second call.\<close>

definition Get_twice ::
  "'w Group \<Rightarrow> string \<Rightarrow> 'w \<Rightarrow> ((error + ByteView) \<times> (error + ByteView) \<times> 'w) option" where
  "Get_twice g k w =
     (case Group_Get g k w of
        None \<Rightarrow> None
      | Some (r1, g1, w1) \<Rightarrow>
          (case Group_Get g1 k w1 of
             None \<Rightarrow> None
           | Some (r2, g2, w2) \<Rightarrow> Some (r1, r2, w2)))"

text \<open>Groups for concrete evaluation. The world is the number of calls the loader has
  received. The loader answers \<^verbatim>\<open>key + "-value"\<close>; one peer is unreachable, the other answers
  with the group name and the key.\<close>

definition counting_getter :: "nat Getter" where
  "counting_getter k w = (Inr (k @ ''-value''), Suc w)"

definition unreachable_peer :: "nat PeerGetter" where
  "unreachable_peer grp k w = (Inl (Errorf ''unreachable''), w)"

definition remote_peer :: "nat PeerGetter" where
  "remote_peer grp k w = (Inr (grp @ ''/'' @ k), w)"

definition scores :: "int64 \<Rightarrow> nat Group" where
  "scores cb =
     \<lparr>name = ''scores'', getter = counting_getter,
      mainCache = \<lparr>cacheBytes = cb, lru = None\<rparr>,
      peers = Some (\<lambda>k w. (Some unreachable_peer, w)),
      loader = \<lparr>inflight = {}\<rparr>\<rparr>"

definition remote_scores :: "nat Group" where
  "remote_scores =
     \<lparr>name = ''scores'', getter = counting_getter,
      mainCache = \<lparr>cacheBytes = 64, lru = None\<rparr>,
      peers = Some (\<lambda>k w. (Some remote_peer, w)),
      loader = \<lparr>inflight = {}\<rparr>\<rparr>"

text \<open>A loader that fails for every key, and counts its calls all the same.\<close>

definition failing_getter :: "nat Getter" where
  "failing_getter k w = (Inl (Errorf (k @ '' not exist'')), Suc w)"

section \<open>Properties of the eviction store\<close>

lemma inv_New: "cache_inv Len (New mb cb)"
  by (simp add: cache_inv_def New_def)

lemma sum_list_remove1_word:
  "a \<in> set xs \<Longrightarrow> (\<Sum>x\<leftarrow>remove1 a xs. (f x :: int64)) = (\<Sum>x\<leftarrow>xs. f x) - f a"
  by (induction xs) auto

lemma inv_MoveToFront:
  assumes "cache_inv Len c"
  shows "cache_inv Len (c\<lparr>ll := MoveToFront e (ll c)\<rparr>)"
proof (cases "e \<in> set (ll c)")
  case False
  then show ?thesis using assms by (simp add: MoveToFront_def cache_inv_def)
next
  case True
  have s: "set (e # remove1 e (ll c)) = set (ll c)"
    using True assms by (auto simp: cache_inv_def)
  have d: "distinct (e # remove1 e (ll c))"
    using assms by (simp add: cache_inv_def)
  have n: "(\<Sum>a\<leftarrow>e # remove1 e (ll c). entry_bytes Len (elems c ! a)) = nbytes c"
    using assms True by (simp add: cache_inv_def sum_list_remove1_word)
  show ?thesis
    unfolding cache_inv_def MoveToFront_def using True assms d n s
    by (simp add: cache_inv_def del: set_simps distinct.simps list.map sum_list.Cons)
qed

lemma inv_Get: "cache_inv Len c \<Longrightarrow> cache_inv Len (snd (Get c k))"
  by (simp add: Get_def inv_MoveToFront split: option.splits)

lemma invD_distinct: "cache_inv Len c \<Longrightarrow> distinct (ll c)"
  by (simp add: cache_inv_def)
lemma invD_lt: "cache_inv Len c \<Longrightarrow> a \<in> set (ll c) \<Longrightarrow> a < length (elems c)"
  by (simp add: cache_inv_def)
lemma invD_ll: "cache_inv Len c \<Longrightarrow> a \<in> set (ll c) \<Longrightarrow> cache c (key (elems c ! a)) = Some a"
  by (simp add: cache_inv_def)
lemma invD_map: "cache_inv Len c \<Longrightarrow> cache c k = Some a \<Longrightarrow> a \<in> set (ll c) \<and> key (elems c ! a) = k"
  by (simp add: cache_inv_def)
lemma invD_nbytes: "cache_inv Len c \<Longrightarrow> nbytes c = (\<Sum>a\<leftarrow>ll c. entry_bytes Len (elems c ! a))"
  by (simp add: cache_inv_def)

lemma RemoveOldest_nonempty:
  "ll c \<noteq> [] \<Longrightarrow> fst (RemoveOldest Len c w) =
     c\<lparr>ll := remove1 (last (ll c)) (ll c),
       cache := (cache c)(key (elems c ! last (ll c)) := None),
       nbytes := nbytes c - entry_bytes Len (elems c ! last (ll c))\<rparr>"
  by (simp add: RemoveOldest_def Back_def Remove_def Let_def entry_bytes_def split: option.splits)

lemma RemoveOldest_empty: "ll c = [] \<Longrightarrow> RemoveOldest Len c w = (c, w)"
  by (simp add: RemoveOldest_def Back_def)

lemma inv_RemoveOldest:
  assumes "cache_inv Len c"
  shows "cache_inv Len (fst (RemoveOldest Len c w))"
proof (cases "ll c = []")
  case True
  then show ?thesis using assms by (simp add: RemoveOldest_empty)
next
  case False
  define a where "a = last (ll c)"
  have a_in: "a \<in> set (ll c)" using False by (simp add: a_def)
  have d: "distinct (ll c)" using assms by (rule invD_distinct)
  have ka: "cache c (key (elems c ! a)) = Some a" using assms a_in by (rule invD_ll)
  have inj: "b = a" if "b \<in> set (ll c)" "key (elems c ! b) = key (elems c ! a)" for b
    using invD_ll[OF assms that(1)] ka that(2) by (metis option.inject)
  define c' where "c' = c\<lparr>ll := remove1 a (ll c), cache := (cache c)(key (elems c ! a) := None),
      nbytes := nbytes c - entry_bytes Len (elems c ! a)\<rparr>"
  have eq: "fst (RemoveOldest Len c w) = c'"
    using False by (simp add: RemoveOldest_nonempty a_def c'_def)
  have sel: "ll c' = remove1 a (ll c)" "elems c' = elems c"
     "cache c' = (cache c)(key (elems c ! a) := None)"
     "nbytes c' = nbytes c - entry_bytes Len (elems c ! a)"
    by (simp_all add: c'_def)
  have 1: "distinct (ll c')" using d by (simp add: sel)
  have 2: "b < length (elems c') \<and> cache c' (key (elems c' ! b)) = Some b" if "b \<in> set (ll c')" for b
  proof -
    from that d have b: "b \<in> set (ll c)" "b \<noteq> a" by (auto simp: sel)
    then have "key (elems c ! b) \<noteq> key (elems c ! a)" using inj by blast
    then show ?thesis using invD_lt[OF assms b(1)] invD_ll[OF assms b(1)] by (simp add: sel)
  qed
  have 3: "b \<in> set (ll c') \<and> key (elems c' ! b) = k" if "cache c' k = Some b" for k b
  proof -
    from that have k: "k \<noteq> key (elems c ! a)" "cache c k = Some b"
      by (auto simp: sel split: if_splits)
    from invD_map[OF assms k(2)] have "b \<in> set (ll c)" "key (elems c ! b) = k" by auto
    then show ?thesis using k(1) d by (auto simp: sel)
  qed
  have 4: "nbytes c' = (\<Sum>b\<leftarrow>ll c'. entry_bytes Len (elems c' ! b))"
    using invD_nbytes[OF assms] a_in by (simp add: sel sum_list_remove1_word)
  show ?thesis unfolding eq cache_inv_def using 1 2 3 4 by blast
qed

lemma RemoveOldest_length:
  "ll c \<noteq> [] \<Longrightarrow> length (ll (fst (RemoveOldest Len c w))) < length (ll c)"
  by (simp add: RemoveOldest_nonempty length_remove1)

lemma RemoveOldest_maxBytes: "maxBytes (fst (RemoveOldest Len c w)) = maxBytes c"
  by (cases "ll c = []") (simp_all add: RemoveOldest_nonempty RemoveOldest_empty)

lemma RemoveOldest_OnEvicted: "OnEvicted (fst (RemoveOldest Len c w)) = OnEvicted c"
  by (cases "ll c = []") (simp_all add: RemoveOldest_nonempty RemoveOldest_empty)

lemma Add_store_new:
  "cache c k = None \<Longrightarrow> Add_store Len c k v =
     c\<lparr>elems := elems c @ [\<lparr>key = k, val = v\<rparr>], ll := length (elems c) # ll c,
       cache := (cache c)(k \<mapsto> length (elems c)),
       nbytes := nbytes c + entry_bytes Len \<lparr>key = k, val = v\<rparr>\<rparr>"
  by (simp add: Add_store_def PushFront_def Let_def entry_bytes_def)

lemma Add_store_old:
  "cache c k = Some e \<Longrightarrow> Add_store Len c k v =
     c\<lparr>ll := MoveToFront e (ll c),
       nbytes := nbytes c + (of_int (Len v) - of_int (Len (val (elems c ! e)))),
       elems := (elems c)[e := (elems c ! e)\<lparr>val := v\<rparr>]\<rparr>"
  by (simp add: Add_store_def Let_def)

lemma sum_list_cong_set:
  "(\<And>x. x \<in> set xs \<Longrightarrow> f x = g x) \<Longrightarrow> sum_list (map f xs) = sum_list (map g xs)"
  by (induction xs) auto

lemma inv_Add_store:
  assumes "cache_inv Len c"
  shows "cache_inv Len (Add_store Len c k v)"
proof (cases "cache c k")
  case None
  have nk: "key (elems c ! a) \<noteq> k" if "a \<in> set (ll c)" for a
    using invD_ll[OF assms that] None by auto
  have lt: "a < length (elems c)" if "a \<in> set (ll c)" for a
    using invD_lt[OF assms that] .
  define n where "n = length (elems c)"
  define c' where "c' = Add_store Len c k v"
  have sel: "ll c' = n # ll c" "elems c' = elems c @ [\<lparr>key = k, val = v\<rparr>]"
     "cache c' = (cache c)(k \<mapsto> n)"
     "nbytes c' = nbytes c + entry_bytes Len \<lparr>key = k, val = v\<rparr>"
    by (simp_all add: c'_def Add_store_new[OF None] n_def)
  have nn: "n \<notin> set (ll c)" using lt n_def by blast
  have old: "elems c' ! a = elems c ! a" if "a \<in> set (ll c)" for a
    using lt[OF that] by (simp add: sel nth_append)
  have new: "elems c' ! n = \<lparr>key = k, val = v\<rparr>" by (simp add: sel n_def)
  have 1: "distinct (ll c')" using invD_distinct[OF assms] nn by (simp add: sel)
  have 2: "b < length (elems c') \<and> cache c' (key (elems c' ! b)) = Some b" if "b \<in> set (ll c')" for b
  proof (cases "b = n")
    case True
    then show ?thesis using new by (simp add: sel n_def)
  next
    case False
    then have b: "b \<in> set (ll c)" using that by (simp add: sel)
    have "b < length (elems c')" using lt[OF b] by (simp add: sel)
    moreover have "cache c' (key (elems c' ! b)) = Some b"
      using nk[OF b] invD_ll[OF assms b] by (simp add: old[OF b] sel(3))
    ultimately show ?thesis by blast
  qed
  have 3: "b \<in> set (ll c') \<and> key (elems c' ! b) = k'" if "cache c' k' = Some b" for k' b
  proof (cases "k' = k")
    case True
    then have "b = n" using that by (simp add: sel)
    then show ?thesis using new True by (simp add: sel(1))
  next
    case False
    then have "cache c k' = Some b" using that by (simp add: sel)
    from invD_map[OF assms this] show ?thesis by (simp add: old sel(1))
  qed
  have "(\<Sum>b\<leftarrow>ll c. entry_bytes Len (elems c' ! b)) = (\<Sum>b\<leftarrow>ll c. entry_bytes Len (elems c ! b))"
    by (rule sum_list_cong_set) (simp add: old)
  then have 4: "nbytes c' = (\<Sum>b\<leftarrow>ll c'. entry_bytes Len (elems c' ! b))"
    using invD_nbytes[OF assms] by (simp add: sel(1,4) new)
  show ?thesis unfolding c'_def[symmetric] cache_inv_def using 1 2 3 4 by blast
next
  case (Some e)
  have e_in: "e \<in> set (ll c)" and ke: "key (elems c ! e) = k"
    using invD_map[OF assms Some] by auto
  have e_lt: "e < length (elems c)" using invD_lt[OF assms e_in] .
  have d: "distinct (ll c)" using invD_distinct[OF assms] .
  define c' where "c' = Add_store Len c k v"
  define kv where "kv = elems c ! e"
  have sel: "ll c' = e # remove1 e (ll c)" "elems c' = (elems c)[e := kv\<lparr>val := v\<rparr>]"
     "cache c' = cache c"
     "nbytes c' = nbytes c + (of_int (Len v) - of_int (Len (val kv)))"
    using e_in by (simp_all add: c'_def Add_store_old[OF Some] MoveToFront_def kv_def)
  have keys: "key (elems c' ! b) = key (elems c ! b)" for b
    by (cases "b = e") (use e_lt in \<open>simp_all add: sel(2) kv_def\<close>)
  have set_eq: "set (ll c') = set (ll c)" using e_in d by (auto simp: sel(1))
  have 1: "distinct (ll c')" using d by (simp add: sel(1))
  have 2: "b < length (elems c') \<and> cache c' (key (elems c' ! b)) = Some b" if "b \<in> set (ll c')" for b
  proof -
    have b: "b \<in> set (ll c)" using that set_eq by simp
    have "length (elems c') = length (elems c)" by (simp add: sel(2))
    then show ?thesis using invD_lt[OF assms b] invD_ll[OF assms b] by (simp add: keys sel(3))
  qed
  have 3: "b \<in> set (ll c') \<and> key (elems c' ! b) = k'" if "cache c' k' = Some b" for k' b
  proof -
    have "cache c k' = Some b" using that by (simp add: sel(3))
    from invD_map[OF assms this] show ?thesis by (simp add: keys set_eq)
  qed
  have rest: "(\<Sum>b\<leftarrow>remove1 e (ll c). entry_bytes Len (elems c' ! b))
            = (\<Sum>b\<leftarrow>remove1 e (ll c). entry_bytes Len (elems c ! b))"
    by (rule sum_list_cong_set) (use d in \<open>auto simp: sel(2)\<close>)
  have hd_new: "entry_bytes Len (elems c' ! e) = entry_bytes Len kv + (of_int (Len v) - of_int (Len (val kv)))"
    using e_lt by (simp add: sel(2) entry_bytes_def)
  have "nbytes c = entry_bytes Len kv + (\<Sum>b\<leftarrow>remove1 e (ll c). entry_bytes Len (elems c ! b))"
    using invD_nbytes[OF assms] e_in by (simp add: sum_list_remove1_word kv_def)
  then have 4: "nbytes c' = (\<Sum>b\<leftarrow>ll c'. entry_bytes Len (elems c' ! b))"
    by (simp add: sel(1,4) rest hd_new)
  show ?thesis unfolding c'_def[symmetric] cache_inv_def using 1 2 3 4 by blast
qed

lemma evict_stop:
  "\<not> (maxBytes c \<noteq> 0 \<and> maxBytes c <s nbytes c) \<Longrightarrow> evict Len (c, w) = Some (c, w)"
  by (subst evict.simps) auto

lemma evict_step:
  "maxBytes c \<noteq> 0 \<Longrightarrow> maxBytes c <s nbytes c \<Longrightarrow>
   evict Len (c, w) = evict Len (RemoveOldest Len c w)"
  by (subst evict.simps) simp

lemma evict_total:
  assumes "cache_inv Len c" "0 \<le>s maxBytes c"
  shows "\<exists>c' w'. evict Len (c, w) = Some (c', w') \<and> cache_inv Len c' \<and>
           maxBytes c' = maxBytes c \<and> OnEvicted c' = OnEvicted c \<and>
           (maxBytes c = 0 \<or> nbytes c' \<le>s maxBytes c)"
  using assms
proof (induction "length (ll c)" arbitrary: c w rule: less_induct)
  case less
  show ?case
  proof (cases "maxBytes c \<noteq> 0 \<and> maxBytes c <s nbytes c")
    case False
    then have "evict Len (c, w) = Some (c, w)" by (rule evict_stop)
    moreover have "maxBytes c = 0 \<or> nbytes c \<le>s maxBytes c"
      using False by (auto simp: word_sless_alt word_sle_eq)
    ultimately show ?thesis using less.prems by blast
  next
    case True
    have ne: "ll c \<noteq> []"
    proof
      assume "ll c = []"
      then have "nbytes c = 0" using invD_nbytes[OF less.prems(1)] by simp
      then show False using True less.prems(2) by (simp add: word_sless_alt word_sle_eq)
    qed
    obtain c1 w1 where r: "RemoveOldest Len c w = (c1, w1)" by (cases "RemoveOldest Len c w")
    have c1: "c1 = fst (RemoveOldest Len c w)" by (simp add: r)
    have l: "length (ll c1) < length (ll c)" unfolding c1 by (rule RemoveOldest_length[OF ne])
    have i: "cache_inv Len c1" unfolding c1 by (rule inv_RemoveOldest[OF less.prems(1)])
    have m: "maxBytes c1 = maxBytes c" unfolding c1 by (rule RemoveOldest_maxBytes)
    have o: "OnEvicted c1 = OnEvicted c" unfolding c1 by (rule RemoveOldest_OnEvicted)
    have p: "0 \<le>s maxBytes c1" using less.prems(2) m by simp
    from less.hyps[OF l i p, of w1] obtain c' w' where
      "evict Len (c1, w1) = Some (c', w')" "cache_inv Len c'" "maxBytes c' = maxBytes c1"
      "OnEvicted c' = OnEvicted c1" "maxBytes c1 = 0 \<or> nbytes c' \<le>s maxBytes c1"
      by blast
    moreover have "evict Len (c, w) = evict Len (c1, w1)"
      using True r by (simp add: evict_step)
    ultimately show ?thesis using m o by auto
  qed
qed

lemma evict_post_stop:
  "\<not> (maxBytes (fst cw) \<noteq> 0 \<and> maxBytes (fst cw) <s nbytes (fst cw)) \<Longrightarrow> evict_post Len cw cw"
  by (auto simp: evict_post_def word_sless_alt word_sle_eq)

lemma evict_post_step:
  "evict_post Len (RemoveOldest Len (fst cw) (snd cw)) cw' \<Longrightarrow> evict_post Len cw cw'"
  unfolding evict_post_def
  using inv_RemoveOldest[of Len "fst cw" "snd cw"]
  by (simp add: RemoveOldest_maxBytes RemoveOldest_OnEvicted)

lemma evict_partial_aux:
  assumes "evict Len cw = Some cw'"
  shows "evict_post Len cw cw'"
proof (rule evict.raw_induct[where P = evict_post, OF _ assms])
  fix ev :: "('a \<Rightarrow> int) \<Rightarrow> ('a, 'b) Cache \<times> 'b \<Rightarrow> (('a, 'b) Cache \<times> 'b) option"
  fix L x y
  assume IH: "\<And>cw b y. ev cw b = Some y \<Longrightarrow> evict_post cw b y"
  assume body: "(if maxBytes (fst x) \<noteq> 0 \<and> maxBytes (fst x) <s nbytes (fst x)
        then ev L (RemoveOldest L (fst x) (snd x)) else Some x) = Some y"
  show "evict_post L x y"
  proof (cases "maxBytes (fst x) \<noteq> 0 \<and> maxBytes (fst x) <s nbytes (fst x)")
    case False
    then have "y = x" using body by (auto split: if_splits)
    then show ?thesis using evict_post_stop[OF False] by simp
  next
    case True
    then have "ev L (RemoveOldest L (fst x) (snd x)) = Some y" using body by simp
    from IH[OF this] show ?thesis by (rule evict_post_step)
  qed
qed

lemma evict_partial:
  assumes "evict Len (c, w) = Some (c', w')" "cache_inv Len c"
  shows "cache_inv Len c'" "maxBytes c' = maxBytes c" "OnEvicted c' = OnEvicted c"
    "maxBytes c = 0 \<or> nbytes c' \<le>s maxBytes c"
  using evict_partial_aux[OF assms(1)] assms(2) by (simp_all add: evict_post_def)

lemma Get_maxBytes: "maxBytes (snd (Get c k)) = maxBytes c"
  by (simp add: Get_def split: option.splits)

lemma Add_store_maxBytes: "maxBytes (Add_store Len c k v) = maxBytes c"
  by (cases "cache c k") (simp_all add: Add_store_new Add_store_old)

lemma Add_store_OnEvicted: "OnEvicted (Add_store Len c k v) = OnEvicted c"
  by (cases "cache c k") (simp_all add: Add_store_new Add_store_old)

lemma apply_op_partial:
  assumes "apply_op Len x (c, w) = Some (c', w')" "cache_inv Len c"
  shows "cache_inv Len c' \<and> maxBytes c' = maxBytes c"
proof (cases x)
  case (OpGet k)
  then show ?thesis using assms inv_Get[OF assms(2), of k] by (auto simp: Get_maxBytes)
next
  case (OpAdd k v)
  then have e: "evict Len (Add_store Len c k v, w) = Some (c', w')"
    using assms(1) by (simp add: Add_def)
  from evict_partial(1,2)[OF e inv_Add_store[OF assms(2)]] show ?thesis
    by (simp add: Add_store_maxBytes)
next
  case OpRemoveOldest
  then have "c' = fst (RemoveOldest Len c w)" using assms(1) by auto
  then show ?thesis using inv_RemoveOldest[OF assms(2), of w] by (simp add: RemoveOldest_maxBytes)
qed

lemma apply_op_total:
  assumes "cache_inv Len c" "0 \<le>s maxBytes c"
  shows "\<exists>c' w'. apply_op Len x (c, w) = Some (c', w')"
proof (cases x)
  case (OpAdd k v)
  have "0 \<le>s maxBytes (Add_store Len c k v)" using assms(2) by (simp add: Add_store_maxBytes)
  from evict_total[OF inv_Add_store[OF assms(1)] this, of w]
  show ?thesis using OpAdd by (auto simp: Add_def)
next
  case (OpGet k)
  then show ?thesis by simp
next
  case OpRemoveOldest
  then show ?thesis by (cases "RemoveOldest Len c w") simp
qed

lemma run_ops_partial:
  "run_ops Len xs (c, w) = Some (c', w') \<Longrightarrow> cache_inv Len c \<Longrightarrow>
   cache_inv Len c' \<and> maxBytes c' = maxBytes c"
proof (induction xs arbitrary: c w)
  case Nil
  then show ?case by simp
next
  case (Cons x xs)
  from Cons.prems(1) obtain c1 w1 where
    a: "apply_op Len x (c, w) = Some (c1, w1)" and r: "run_ops Len xs (c1, w1) = Some (c', w')"
    by (auto split: option.splits)
  from apply_op_partial[OF a Cons.prems(2)] have "cache_inv Len c1" "maxBytes c1 = maxBytes c"
    by simp_all
  with Cons.IH[OF r] show ?case by simp
qed

lemma run_ops_total:
  "cache_inv Len c \<Longrightarrow> 0 \<le>s maxBytes c \<Longrightarrow> \<exists>c' w'. run_ops Len xs (c, w) = Some (c', w')"
proof (induction xs arbitrary: c w)
  case Nil
  then show ?case by simp
next
  case (Cons x xs)
  from apply_op_total[OF Cons.prems, of x w] obtain c1 w1 where
    a: "apply_op Len x (c, w) = Some (c1, w1)" by blast
  from apply_op_partial[OF a Cons.prems(1)] Cons.prems(2)
  have "cache_inv Len c1" "0 \<le>s maxBytes c1" by simp_all
  from Cons.IH[OF this, of w1] show ?case using a by simp
qed

lemma inv_list_keys: "cache_inv Len c \<Longrightarrow> list_keys c = dom (cache c)"
proof (intro set_eqI iffI)
  fix k assume i: "cache_inv Len c" and "k \<in> list_keys c"
  then obtain a where "a \<in> set (ll c)" "k = key (elems c ! a)" by (auto simp: list_keys_def)
  with invD_ll[OF i this(1)] show "k \<in> dom (cache c)" by auto
next
  fix k assume i: "cache_inv Len c" and "k \<in> dom (cache c)"
  then obtain a where "cache c k = Some a" by auto
  from invD_map[OF i this] show "k \<in> list_keys c" by (auto simp: list_keys_def)
qed

lemma word_sum_of_resident:
  "(\<Sum>a\<leftarrow>xs. entry_bytes Len (es ! a)) =
   (of_int (\<Sum>a\<leftarrow>xs. int (length (key (es ! a))) + Len (val (es ! a))) :: int64)"
  by (induction xs) (simp_all add: entry_bytes_def)

lemma sint_of_int_int64:
  "- (2 ^ 63) \<le> x \<Longrightarrow> x < 2 ^ 63 \<Longrightarrow> sint (of_int x :: int64) = x"
  by (simp add: sint_sbintrunc' signed_take_bit_int_eq_self)

lemma inv_sint_nbytes:
  assumes "cache_inv Len c" "- (2 ^ 63) \<le> resident_bytes Len c" "resident_bytes Len c < 2 ^ 63"
  shows "sint (nbytes c) = resident_bytes Len c"
proof -
  have "nbytes c = of_int (resident_bytes Len c)"
    unfolding resident_bytes_def invD_nbytes[OF assms(1)] by (rule word_sum_of_resident)
  then show ?thesis using sint_of_int_int64[OF assms(2,3)] by simp
qed

lemma Add_total:
  assumes "cache_inv Len c" "0 \<le>s maxBytes c"
  shows "\<exists>c' w'. Add Len c k v w = Some (c', w') \<and> cache_inv Len c' \<and>
           maxBytes c' = maxBytes c \<and> OnEvicted c' = OnEvicted c \<and> within_capacity c'"
proof -
  have "0 \<le>s maxBytes (Add_store Len c k v)" using assms(2) by (simp add: Add_store_maxBytes)
  from evict_total[OF inv_Add_store[OF assms(1)] this, of w] obtain c' w' where
    e: "evict Len (Add_store Len c k v, w) = Some (c', w')" and i: "cache_inv Len c'"
    and m: "maxBytes c' = maxBytes (Add_store Len c k v)"
    and o: "OnEvicted c' = OnEvicted (Add_store Len c k v)"
    and b: "maxBytes (Add_store Len c k v) = 0 \<or> nbytes c' \<le>s maxBytes (Add_store Len c k v)"
    by blast
  have 1: "Add Len c k v w = Some (c', w')" using e by (simp add: Add_def)
  have 2: "maxBytes c' = maxBytes c" using m by (simp add: Add_store_maxBytes)
  have 3: "OnEvicted c' = OnEvicted c" using o by (simp add: Add_store_OnEvicted)
  have 4: "within_capacity c'" using b m by (simp add: within_capacity_def Add_store_maxBytes)
  show ?thesis using 1 i 2 3 4 by blast
qed

lemma Adds_Nil: "Adds Len [] cw = Some cw"
  by (simp add: Adds_def)

lemma Adds_Cons:
  "Adds Len ((k, v) # kvs) (c, w) =
     (case Add Len c k v w of None \<Rightarrow> None | Some cw' \<Rightarrow> Adds Len kvs cw')"
  by (simp add: Adds_def split: option.splits)

lemma Adds_total:
  "cache_inv Len c \<Longrightarrow> 0 \<le>s maxBytes c \<Longrightarrow> within_capacity c \<Longrightarrow>
   \<exists>c' w'. Adds Len kvs (c, w) = Some (c', w') \<and> cache_inv Len c' \<and>
            maxBytes c' = maxBytes c \<and> within_capacity c'"
proof (induction kvs arbitrary: c w)
  case Nil
  then show ?case by (simp add: Adds_Nil)
next
  case (Cons kv kvs)
  obtain k v where kv: "kv = (k, v)" by (cases kv)
  from Add_total[OF Cons.prems(1,2), of k v w] obtain c1 w1 where
    a: "Add Len c k v w = Some (c1, w1)" and i: "cache_inv Len c1"
    and m: "maxBytes c1 = maxBytes c" and b: "within_capacity c1" by blast
  have p: "0 \<le>s maxBytes c1" using Cons.prems(2) m by simp
  from Cons.IH[OF i p b, of w1] show ?case using a m by (simp add: kv Adds_Cons)
qed

lemma resident_Add_store:
  assumes "cache_inv Len c"
  shows "resident (Add_store Len c k v) = (resident c)(k \<mapsto> v)"
proof (rule ext)
  fix k'
  show "resident (Add_store Len c k v) k' = ((resident c)(k \<mapsto> v)) k'"
  proof (cases "cache c k")
    case None
    show ?thesis
    proof (cases "k' = k")
      case True
      then show ?thesis by (simp add: resident_def Add_store_new[OF None])
    next
      case False
      show ?thesis
      proof (cases "cache c k'")
        case None': None
        then show ?thesis using False by (simp add: resident_def Add_store_new[OF None])
      next
        case (Some b)
        from invD_map[OF assms Some] have "b \<in> set (ll c)" by simp
        from invD_lt[OF assms this] show ?thesis
          using False Some by (simp add: resident_def Add_store_new[OF None] nth_append)
      qed
    qed
  next
    case (Some e)
    from invD_map[OF assms Some] have e: "e \<in> set (ll c)" "key (elems c ! e) = k" by simp_all
    have e_lt: "e < length (elems c)" using invD_lt[OF assms e(1)] .
    show ?thesis
    proof (cases "k' = k")
      case True
      then show ?thesis using Some e_lt by (simp add: resident_def Add_store_old[OF Some])
    next
      case False
      show ?thesis
      proof (cases "cache c k'")
        case None
        then show ?thesis using False by (simp add: resident_def Add_store_old[OF Some])
      next
        case Some': (Some b)
        from invD_map[OF assms Some'] have "key (elems c ! b) = k'" by simp
        then have "b \<noteq> e" using e(2) False by auto
        then show ?thesis
          using False Some' by (simp add: resident_def Add_store_old[OF Some])
      qed
    qed
  qed
qed

lemma Add_unbounded:
  "maxBytes c = 0 \<Longrightarrow> Add Len c k v w = Some (Add_store Len c k v, w)"
  by (simp add: Add_def evict_stop Add_store_maxBytes)

lemma Adds_unbounded:
  "cache_inv Len c \<Longrightarrow> maxBytes c = 0 \<Longrightarrow>
   \<exists>c'. Adds Len kvs (c, w) = Some (c', w) \<and> cache_inv Len c' \<and>
        resident c' = resident c ++ map_of (rev kvs)"
proof (induction kvs arbitrary: c)
  case Nil
  then show ?case by (simp add: Adds_Nil)
next
  case (Cons kv kvs)
  obtain k v where kv: "kv = (k, v)" by (cases kv)
  define c1 where "c1 = Add_store Len c k v"
  have a: "Add Len c k v w = Some (c1, w)" unfolding c1_def by (rule Add_unbounded[OF Cons.prems(2)])
  have i: "cache_inv Len c1" unfolding c1_def by (rule inv_Add_store[OF Cons.prems(1)])
  have m: "maxBytes c1 = 0" unfolding c1_def using Cons.prems(2) by (simp add: Add_store_maxBytes)
  have r: "resident c1 = (resident c)(k \<mapsto> v)" unfolding c1_def by (rule resident_Add_store[OF Cons.prems(1)])
  from Cons.IH[OF i m] obtain c' where
    r1: "Adds Len kvs (c1, w) = Some (c', w)" and i': "cache_inv Len c'"
    and r2: "resident c' = resident c1 ++ map_of (rev kvs)" by blast
  have "map_of (rev (kv # kvs)) = [k \<mapsto> v] ++ map_of (rev kvs)"
    by (simp add: kv)
  then have "resident c ++ map_of (rev (kv # kvs)) = (resident c ++ [k \<mapsto> v]) ++ map_of (rev kvs)"
    by (simp only: map_add_assoc)
  also have "resident c ++ [k \<mapsto> v] = (resident c)(k \<mapsto> v)" by simp
  finally have e: "resident c' = resident c ++ map_of (rev (kv # kvs))"
    by (simp only: r2 r)
  have "Adds Len (kv # kvs) (c, w) = Some (c', w)"
    by (simp add: kv Adds_Cons a r1)
  then show ?case using i' e by blast
qed

text \<open>Rules that evaluate the operations on a concrete store.\<close>

lemmas lru_eval = Adds_def Add_def Add_store_def New_def PushFront_def MoveToFront_def Let_def
  evict_step evict_stop RemoveOldest_def Back_def Remove_def Get_def word_sless_alt word_sle_eq

lemma RemoveOldest_nonempty_snd:
  "ll c \<noteq> [] \<Longrightarrow> snd (RemoveOldest Len c w) =
     (case OnEvicted c of None \<Rightarrow> w
      | Some f \<Rightarrow> f (key (elems c ! last (ll c))) (val (elems c ! last (ll c))) w)"
  by (simp add: RemoveOldest_def Back_def Remove_def Let_def split: option.splits)

lemma word_pos_not_sless_0: "0 <s (mb :: int64) \<Longrightarrow> \<not> mb <s 0"
  by (simp add: word_sless_alt)

lemma word_pos_neq_0: "0 <s (mb :: int64) \<Longrightarrow> mb \<noteq> 0"
  by auto

lemma Add_fits:
  "\<not> maxBytes c <s nbytes (Add_store Len c k v) \<Longrightarrow>
   Add Len c k v w = Some (Add_store Len c k v, w)"
  by (simp add: Add_def evict_stop Add_store_maxBytes)

section \<open>Properties of the group and of the peer server\<close>

lemma Get_miss: "fst (Get c k) = None \<Longrightarrow> Get c k = (None, c)"
  by (simp add: Get_def split: option.splits)

lemma cache_get_miss: "fst (cache_get mc k) = None \<Longrightarrow> cache_get mc k = (None, mc)"
proof (cases "lru mc")
  case None
  then show ?thesis by (simp add: cache_get_def)
next
  case (Some c)
  assume "fst (cache_get mc k) = None"
  then have "fst (Get c k) = None" using Some by (simp add: cache_get_def split: prod.splits)
  then have "Get c k = (None, c)" by (rule Get_miss)
  moreover have "mc\<lparr>lru := Some c\<rparr> = mc" using Some by simp
  ultimately show ?thesis using Some by (simp add: cache_get_def)
qed

lemma Do_not_inflight:
  assumes "k \<notin> inflight (loader g)"
    and "fn (g\<lparr>loader := (loader g)\<lparr>inflight := insert k (inflight (loader g))\<rparr>\<rparr>) w = Some (r, g', w')"
  shows "Do g k fn w = Some (r, g'\<lparr>loader := (loader g')\<lparr>inflight := inflight (loader g') - {k}\<rparr>\<rparr>, w')"
  using assms by (simp add: Do_def)

lemma loader_restore:
  "k \<notin> inflight (loader g) \<Longrightarrow>
   g\<lparr>loader := (loader g)\<lparr>inflight := insert k (inflight (loader g)) - {k}\<rparr>\<rparr> = g"
  by simp

lemma Add_store_head:
  assumes "cache_inv Len c"
  shows "\<exists>a rest. ll (Add_store Len c k v) = a # rest \<and>
           elems (Add_store Len c k v) ! a = \<lparr>key = k, val = v\<rparr>"
proof (cases "cache c k")
  case None
  show ?thesis by (simp add: Add_store_new[OF None])
next
  case (Some e)
  from invD_map[OF assms Some] have e: "e \<in> set (ll c)" "key (elems c ! e) = k" by simp_all
  have e_lt: "e < length (elems c)" using invD_lt[OF assms e(1)] .
  have "(elems c ! e)\<lparr>val := v\<rparr> = \<lparr>key = k, val = v\<rparr>" using e(2) by simp
  then show ?thesis using e(1) e_lt by (simp add: Add_store_old[OF Some] MoveToFront_def)
qed

lemma evict_keeps_head:
  assumes "cache_inv Len c" "ll c = a # rest" "0 <s maxBytes c"
    "entry_bytes Len (elems c ! a) \<le>s maxBytes c"
  shows "\<exists>c' w' rest'. evict Len (c, w) = Some (c', w') \<and> cache_inv Len c' \<and>
           maxBytes c' = maxBytes c \<and> OnEvicted c' = OnEvicted c \<and>
           ll c' = a # rest' \<and> elems c' = elems c \<and> (OnEvicted c = None \<longrightarrow> w' = w)"
  using assms
proof (induction "length rest" arbitrary: c w rest rule: less_induct)
  case less
  show ?case
  proof (cases "maxBytes c \<noteq> 0 \<and> maxBytes c <s nbytes c")
    case False
    then have "evict Len (c, w) = Some (c, w)" by (rule evict_stop)
    then show ?thesis using less.prems(1,2) by blast
  next
    case True
    have ne: "rest \<noteq> []"
    proof
      assume "rest = []"
      then have "nbytes c = entry_bytes Len (elems c ! a)"
        using invD_nbytes[OF less.prems(1)] less.prems(2) by simp
      then show False using True less.prems(4) by (simp add: word_sless_alt word_sle_eq)
    qed
    have nel: "ll c \<noteq> []" using less.prems(2) by simp
    define l where "l = last (ll c)"
    have l_rest: "l = last rest" using ne less.prems(2) by (simp add: l_def)
    have d: "distinct (a # rest)" using invD_distinct[OF less.prems(1)] less.prems(2) by simp
    have la: "l \<noteq> a" using d ne l_rest by auto
    obtain c1 w1 where r: "RemoveOldest Len c w = (c1, w1)" by (cases "RemoveOldest Len c w")
    have c1: "c1 = fst (RemoveOldest Len c w)" and w1: "w1 = snd (RemoveOldest Len c w)"
      by (simp_all add: r)
    have i1: "cache_inv Len c1" unfolding c1 by (rule inv_RemoveOldest[OF less.prems(1)])
    have m1: "maxBytes c1 = maxBytes c" unfolding c1 by (rule RemoveOldest_maxBytes)
    have o1: "OnEvicted c1 = OnEvicted c" unfolding c1 by (rule RemoveOldest_OnEvicted)
    have ll1: "ll c1 = a # remove1 l rest"
      unfolding c1 RemoveOldest_nonempty[OF nel] using la less.prems(2) by (simp add: l_def)
    have e1: "elems c1 = elems c" unfolding c1 RemoveOldest_nonempty[OF nel] by simp
    have ww: "OnEvicted c = None \<longrightarrow> w1 = w"
      unfolding w1 RemoveOldest_nonempty_snd[OF nel] by simp
    have len: "length (remove1 l rest) < length rest"
      using ne l_rest by (simp add: length_remove1)
    have p3: "0 <s maxBytes c1" using less.prems(3) m1 by simp
    have p4: "entry_bytes Len (elems c1 ! a) \<le>s maxBytes c1" using less.prems(4) m1 e1 by simp
    from less.hyps[OF len i1 ll1 p3 p4, of w1] obtain c' w' rest' where
      res: "evict Len (c1, w1) = Some (c', w')" "cache_inv Len c'" "maxBytes c' = maxBytes c1"
      "OnEvicted c' = OnEvicted c1" "ll c' = a # rest'" "elems c' = elems c1"
      "OnEvicted c1 = None \<longrightarrow> w' = w1" by (elim exE conjE) (rule that)
    have "evict Len (c, w) = Some (c', w')"
      using True r res(1) by (simp add: evict_step)
    moreover have "OnEvicted c = None \<longrightarrow> w' = w" using res(7) o1 ww by simp
    ultimately show ?thesis using res(2-6) m1 o1 e1 by auto
  qed
qed

lemma Add_keeps_new_entry:
  assumes "cache_inv Len c"
    and "maxBytes c = 0 \<or> (0 <s maxBytes c \<and> entry_bytes Len \<lparr>key = k, val = v\<rparr> \<le>s maxBytes c)"
  shows "\<exists>c' w'. Add Len c k v w = Some (c', w') \<and> cache_inv Len c' \<and>
           maxBytes c' = maxBytes c \<and> OnEvicted c' = OnEvicted c \<and>
           resident c' k = Some v \<and> (OnEvicted c = None \<longrightarrow> w' = w)"
proof (cases "maxBytes c = 0")
  case True
  have "resident (Add_store Len c k v) k = Some v"
    by (simp add: resident_Add_store[OF assms(1)])
  then show ?thesis
    using Add_unbounded[OF True, of Len k v w] inv_Add_store[OF assms(1), of k v]
    by (simp add: Add_store_maxBytes Add_store_OnEvicted)
next
  case False
  define c1 where "c1 = Add_store Len c k v"
  have i1: "cache_inv Len c1" unfolding c1_def by (rule inv_Add_store[OF assms(1)])
  have m1: "maxBytes c1 = maxBytes c" unfolding c1_def by (rule Add_store_maxBytes)
  have o1: "OnEvicted c1 = OnEvicted c" unfolding c1_def by (rule Add_store_OnEvicted)
  from Add_store_head[OF assms(1), of k v] obtain a rest where
    h: "ll c1 = a # rest" "elems c1 ! a = \<lparr>key = k, val = v\<rparr>" unfolding c1_def by blast
  have p3: "0 <s maxBytes c1" using assms(2) False m1 by simp
  have p4: "entry_bytes Len (elems c1 ! a) \<le>s maxBytes c1" using assms(2) False m1 h(2) by simp
  from evict_keeps_head[OF i1 h(1) p3 p4, of w] obtain c' w' rest' where
    res: "evict Len (c1, w) = Some (c', w')" "cache_inv Len c'" "maxBytes c' = maxBytes c1"
    "OnEvicted c' = OnEvicted c1" "ll c' = a # rest'" "elems c' = elems c1"
    "OnEvicted c1 = None \<longrightarrow> w' = w" by (elim exE conjE) (rule that)
  have "a \<in> set (ll c')" using res(5) by simp
  from invD_ll[OF res(2) this] have "cache c' k = Some a" using res(6) h(2) by simp
  then have "resident c' k = Some v" using res(6) h(2) by (simp add: resident_def)
  moreover have "Add Len c k v w = Some (c', w')" using res(1) by (simp add: Add_def c1_def)
  ultimately show ?thesis using res(2,3,4,7) m1 o1 by auto
qed

lemma cache_get_resident:
  "fst (cache_get mc k) = (case lru mc of None \<Rightarrow> None | Some c \<Rightarrow> resident c k)"
  by (simp add: cache_get_def Get_def resident_def split: option.splits)

lemma cache_add_keeps:
  assumes "mainCache_inv mc"
    and "cacheBytes mc = 0 \<or>
         (0 <s cacheBytes mc \<and> entry_bytes Len_ByteView \<lparr>key = k, val = v\<rparr> \<le>s cacheBytes mc)"
  shows "\<exists>mc'. cache_add mc k v w = Some (mc', w) \<and> mainCache_inv mc' \<and>
           cacheBytes mc' = cacheBytes mc \<and> fst (cache_get mc' k) = Some v"
proof -
  define c :: "(ByteView, 'a) Cache" where
    "c = (case lru mc of None \<Rightarrow> New (cacheBytes mc) None | Some c \<Rightarrow> c)"
  have i: "cache_inv Len_ByteView c" and m: "maxBytes c = cacheBytes mc" and o: "OnEvicted c = None"
  proof -
    show "cache_inv Len_ByteView c"
      using assms(1) by (cases "lru mc") (simp_all add: c_def mainCache_inv_def inv_New)
    show "maxBytes c = cacheBytes mc"
      using assms(1) by (cases "lru mc") (simp_all add: c_def mainCache_inv_def New_def)
    show "OnEvicted c = None"
      using assms(1) by (cases "lru mc") (simp_all add: c_def mainCache_inv_def New_def)
  qed
  have fits: "maxBytes c = 0 \<or>
      (0 <s maxBytes c \<and> entry_bytes Len_ByteView \<lparr>key = k, val = v\<rparr> \<le>s maxBytes c)"
    using assms(2) m by simp
  from Add_keeps_new_entry[OF i fits, of w] o obtain c' where
    a: "Add Len_ByteView c k v w = Some (c', w)" and i': "cache_inv Len_ByteView c'"
    and m': "maxBytes c' = maxBytes c" and o': "OnEvicted c' = OnEvicted c"
    and r: "resident c' k = Some v" by auto
  have 1: "cache_add mc k v w = Some (mc\<lparr>lru := Some c'\<rparr>, w)"
    using a by (simp add: cache_add_def c_def)
  have 2: "mainCache_inv (mc\<lparr>lru := Some c'\<rparr>)"
    using i' m' o' m o by (simp add: mainCache_inv_def)
  have 3: "fst (cache_get (mc\<lparr>lru := Some c'\<rparr>) k) = Some v"
    using r by (simp add: cache_get_resident)
  show ?thesis using 1 2 3 by auto
qed

lemmas group_eval = Get_twice_def Group_Get_def cache_get_def load_def Do_def load_fn_def
  getFromPeer_def getLocally_def populateCache_def cache_add_def cloneBytes_def
  Len_ByteView_def entry_bytes_def

lemma cache_get_inv: "mainCache_inv mc \<Longrightarrow> mainCache_inv (snd (cache_get mc k))"
proof (cases "lru mc")
  case None
  assume "mainCache_inv mc"
  then show ?thesis using None by (simp add: cache_get_def)
next
  case (Some c)
  assume "mainCache_inv mc"
  then have i: "cache_inv Len_ByteView c" and m: "maxBytes c = cacheBytes mc"
    and o: "OnEvicted c = None" using Some by (simp_all add: mainCache_inv_def)
  obtain r c' where g: "Get c k = (r, c')" by (cases "Get c k")
  have c': "c' = snd (Get c k)" by (simp add: g)
  have "cache_inv Len_ByteView c'" unfolding c' by (rule inv_Get[OF i])
  moreover have "maxBytes c' = cacheBytes mc" unfolding c' using m by (simp add: Get_maxBytes)
  moreover have "OnEvicted c' = None" unfolding c' using o by (simp add: Get_def split: option.splits)
  ultimately show ?thesis using Some g by (simp add: cache_get_def mainCache_inv_def)
qed

lemma getLocally_frame:
  "getLocally g k w = Some (r, g', w') \<Longrightarrow>
     mainCache g' = mainCache g \<or>
     (\<exists>bytes wb. getter g k w = (Inr bytes, wb) \<and>
        cache_add (mainCache g) k (ByteView bytes) wb = Some (mainCache g', w'))"
  by (auto simp: getLocally_def populateCache_def cloneBytes_def Let_def
      split: prod.splits sum.splits option.splits)

lemma load_fn_frame:
  assumes "load_fn k g w = Some (r, g', w')"
  shows "mainCache g' = mainCache g \<or>
     (\<exists>bytes wa wb. getter g k wa = (Inr bytes, wb) \<and>
        cache_add (mainCache g) k (ByteView bytes) wb = Some (mainCache g', w'))"
proof (cases "peers g")
  case None
  then have "getLocally g k w = Some (r, g', w')" using assms by (simp add: load_fn_def)
  from getLocally_frame[OF this] show ?thesis by blast
next
  case (Some pick)
  obtain po w1 where p: "pick k w = (po, w1)" by (cases "pick k w")
  show ?thesis
  proof (cases po)
    case None
    then have "getLocally g k w1 = Some (r, g', w')" using assms Some p by (simp add: load_fn_def)
    from getLocally_frame[OF this] show ?thesis by blast
  next
    case Some': (Some peer)
    obtain pr w2 where f: "getFromPeer g peer k w1 = (pr, w2)" by (cases "getFromPeer g peer k w1")
    show ?thesis
    proof (cases pr)
      case (Inr v)
      then have "g' = g" using assms Some p Some' f by (simp add: load_fn_def)
      then show ?thesis by simp
    next
      case (Inl err)
      then have "getLocally g k w2 = Some (r, g', w')"
        using assms Some p Some' f by (simp add: load_fn_def)
      from getLocally_frame[OF this] show ?thesis by blast
    qed
  qed
qed

lemma load_frame:
  assumes "load g k w = Some (r, g', w')"
  shows "mainCache g' = mainCache g \<or>
     (\<exists>bytes wa wb. getter g k wa = (Inr bytes, wb) \<and>
        cache_add (mainCache g) k (ByteView bytes) wb = Some (mainCache g', w'))"
proof -
  let ?g = "g\<lparr>loader := (loader g)\<lparr>inflight := insert k (inflight (loader g))\<rparr>\<rparr>"
  from assms obtain g1 where
    fn: "load_fn k ?g w = Some (r, g1, w')"
    and g': "g' = g1\<lparr>loader := (loader g1)\<lparr>inflight := inflight (loader g1) - {k}\<rparr>\<rparr>"
    by (auto simp: load_def Do_def split: if_splits option.splits)
  from load_fn_frame[OF fn] show ?thesis by (simp add: g')
qed

lemma Group_Get_frame:
  assumes "Group_Get g k w = Some (r, g', w')"
  shows "mainCache g' = mainCache g \<or> mainCache g' = snd (cache_get (mainCache g) k) \<or>
     (\<exists>bytes wa wb. getter g k wa = (Inr bytes, wb) \<and>
        cache_add (snd (cache_get (mainCache g) k)) k (ByteView bytes) wb = Some (mainCache g', w'))"
proof (cases "k = []")
  case True
  then show ?thesis using assms by (simp add: Group_Get_def)
next
  case False
  obtain ro mc where cg: "cache_get (mainCache g) k = (ro, mc)" by (cases "cache_get (mainCache g) k")
  show ?thesis
  proof (cases ro)
    case (Some v)
    then have "g' = g\<lparr>mainCache := mc\<rparr>" using assms False cg by (simp add: Group_Get_def)
    then show ?thesis using cg by simp
  next
    case None
    then have "load (g\<lparr>mainCache := mc\<rparr>) k w = Some (r, g', w')"
      using assms False cg by (simp add: Group_Get_def)
    from load_frame[OF this] show ?thesis using cg by simp
  qed
qed

lemma cache_add_inv:
  assumes "cache_add mc k v w = Some (mc', w')" "mainCache_inv mc"
  shows "mainCache_inv mc' \<and> cacheBytes mc' = cacheBytes mc"
proof -
  define c :: "(ByteView, 'a) Cache" where
    "c = (case lru mc of None \<Rightarrow> New (cacheBytes mc) None | Some c \<Rightarrow> c)"
  have i: "cache_inv Len_ByteView c"
    using assms(2) by (cases "lru mc") (simp_all add: c_def mainCache_inv_def inv_New)
  have m: "maxBytes c = cacheBytes mc"
    using assms(2) by (cases "lru mc") (simp_all add: c_def mainCache_inv_def New_def)
  have o: "OnEvicted c = None"
    using assms(2) by (cases "lru mc") (simp_all add: c_def mainCache_inv_def New_def)
  from assms(1) obtain c' where
    a: "Add Len_ByteView c k v w = Some (c', w')" and mc': "mc' = mc\<lparr>lru := Some c'\<rparr>"
    by (auto simp: cache_add_def c_def Let_def split: option.splits)
  have e: "evict Len_ByteView (Add_store Len_ByteView c k v, w) = Some (c', w')"
    using a by (simp add: Add_def)
  from evict_partial(1,2,3)[OF e inv_Add_store[OF i]]
  show ?thesis using m o by (simp add: mc' mainCache_inv_def Add_store_maxBytes Add_store_OnEvicted)
qed

lemma Group_Get_keeps_inv:
  assumes "Group_Get g k w = Some (r, g', w')" "mainCache_inv (mainCache g)"
  shows "mainCache_inv (mainCache g')"
proof -
  have s: "mainCache_inv (snd (cache_get (mainCache g) k))"
    by (rule cache_get_inv[OF assms(2)])
  from Group_Get_frame[OF assms(1)] consider
    "mainCache g' = mainCache g" | "mainCache g' = snd (cache_get (mainCache g) k)"
    | bs wb where "cache_add (snd (cache_get (mainCache g) k)) k (ByteView bs) wb = Some (mainCache g', w')"
    by blast
  then show ?thesis
  proof cases
    case 1
    then show ?thesis using assms(2) by simp
  next
    case 2
    then show ?thesis using s by simp
  next
    case 3
    from cache_add_inv[OF 3 s] show ?thesis by simp
  qed
qed

lemma NewGroup_inv:
  "NewGroup nm cb (Some gt) st = Inr (p, st') \<Longrightarrow> mainCache_inv (mainCache (group_store st' ! p))"
  by (auto simp: NewGroup_def Let_def mainCache_inv_def)

lemma SplitN_slash_2_join:
  "CHR ''/'' \<notin> set a \<Longrightarrow> SplitN_slash_2 (a @ ''/'' @ b) = [a, b]"
proof -
  assume a: "CHR ''/'' \<notin> set a"
  have "takeWhile (\<lambda>c. c \<noteq> CHR ''/'') (a @ ''/'' @ b) = a"
    using a by (induction a) auto
  moreover have "dropWhile (\<lambda>c. c \<noteq> CHR ''/'') (a @ ''/'' @ b) = ''/'' @ b"
    using a by (induction a) auto
  ultimately show ?thesis by (simp add: SplitN_slash_2_def)
qed

lemma ServeHTTP_unknown_group:
  assumes "CHR ''/'' \<notin> set groupName" "GetGroup groupName st = None"
  shows "ServeHTTP p (basePath p @ groupName @ ''/'' @ k) st w =
     Some (Inr (\<lparr>status = 404, Content_Type = Some ''text/plain; charset=utf-8'',
                 body = ''no suck group: '' @ groupName @ [CHR 0x0A]\<rparr>, st, w))"
proof -
  have "SplitN_slash_2 (groupName @ ''/'' @ k) = [groupName, k]"
    by (rule SplitN_slash_2_join[OF assms(1)])
  then show ?thesis
    using assms(2)
    by (simp add: ServeHTTP_def HasPrefix_def http_Error_def StatusNotFound_def Let_def)
qed

section \<open>Eviction down to the empty store, lookups after a failed peer\<close>

lemma resident_bytes_entry_len:
  "resident_bytes Len c = (\<Sum>a\<leftarrow>ll c. entry_len Len (elems c ! a))"
  by (simp add: resident_bytes_def entry_len_def)

lemma remove1_last_distinct:
  "distinct xs \<Longrightarrow> xs \<noteq> [] \<Longrightarrow> remove1 (last xs) xs = butlast xs"
  by (induction xs) auto

lemma RemoveOldest_last:
  assumes "cache_inv Len c" "ll c \<noteq> []"
  shows "RemoveOldest Len c w =
    (c\<lparr>ll := butlast (ll c),
       cache := (cache c)(key (elems c ! last (ll c)) := None),
       nbytes := nbytes c - entry_bytes Len (elems c ! last (ll c))\<rparr>,
     call_OnEvicted (OnEvicted c) (elems c ! last (ll c)) w)"
proof -
  have r: "remove1 (last (ll c)) (ll c) = butlast (ll c)"
    by (rule remove1_last_distinct[OF invD_distinct[OF assms(1)] assms(2)])
  have "fst (RemoveOldest Len c w) = c\<lparr>ll := butlast (ll c),
       cache := (cache c)(key (elems c ! last (ll c)) := None),
       nbytes := nbytes c - entry_bytes Len (elems c ! last (ll c))\<rparr>"
    unfolding RemoveOldest_nonempty[OF assms(2)] by (simp only: r)
  moreover have "snd (RemoveOldest Len c w) = call_OnEvicted (OnEvicted c) (elems c ! last (ll c)) w"
    unfolding RemoveOldest_nonempty_snd[OF assms(2)] by (simp add: call_OnEvicted_def)
  ultimately show ?thesis by (simp add: prod_eq_iff)
qed

lemma sum_list_nonneg_int:
  "(\<forall>x \<in> set xs. 0 \<le> (f x :: int)) \<Longrightarrow> 0 \<le> sum_list (map f xs)"
  by (induction xs) auto

lemma sum_list_butlast_le:
  "(\<forall>x \<in> set xs. 0 \<le> (f x :: int)) \<Longrightarrow>
   sum_list (map f (butlast xs)) \<le> sum_list (map f xs)"
proof (induction xs)
  case Nil
  then show ?case by simp
next
  case (Cons x xs)
  then have "sum_list (map f (butlast xs)) \<le> sum_list (map f xs)" by simp
  moreover have "0 \<le> f x" using Cons.prems by simp
  ultimately show ?case by simp
qed

lemma sum_list_hd_le:
  "xs \<noteq> [] \<Longrightarrow> (\<forall>x \<in> set xs. 0 \<le> (f x :: int)) \<Longrightarrow> f (hd xs) \<le> sum_list (map f xs)"
proof -
  assume ne: "xs \<noteq> []" and nn: "\<forall>x \<in> set xs. 0 \<le> f x"
  obtain a rest where x: "xs = a # rest" using ne by (cases xs) auto
  have "0 \<le> sum_list (map f rest)" using nn x by (intro sum_list_nonneg_int) simp
  then show ?thesis by (simp add: x)
qed

lemma fold_rev_last:
  "xs \<noteq> [] \<Longrightarrow> fold g (rev xs) w = fold g (rev (butlast xs)) (g (last xs) w)"
proof -
  assume "xs \<noteq> []"
  then obtain ys y where "xs = ys @ [y]" by (cases xs rule: rev_cases) auto
  then show ?thesis by simp
qed

lemma evict_all:
  assumes "cache_inv Len c" "0 <s maxBytes c" "ll c \<noteq> []"
    "\<forall>a \<in> set (ll c). 0 \<le> entry_len Len (elems c ! a)"
    "resident_bytes Len c < 2 ^ 63"
    "sint (maxBytes c) < entry_len Len (elems c ! hd (ll c))"
  shows "\<exists>c'. evict Len (c, w) =
            Some (c', fold (\<lambda>a. call_OnEvicted (OnEvicted c) (elems c ! a)) (rev (ll c)) w) \<and>
          cache_inv Len c' \<and> ll c' = [] \<and> maxBytes c' = maxBytes c \<and>
          OnEvicted c' = OnEvicted c \<and> elems c' = elems c"
  using assms
proof (induction "length (ll c)" arbitrary: c w rule: less_induct)
  case less
  let ?f = "\<lambda>a. entry_len Len (elems c ! a)"
  let ?g = "\<lambda>a. call_OnEvicted (OnEvicted c) (elems c ! a)"
  have nn: "\<forall>a \<in> set (ll c). 0 \<le> ?f a" using less.prems(4) .
  have rb: "resident_bytes Len c = sum_list (map ?f (ll c))" by (rule resident_bytes_entry_len)
  have rb0: "0 \<le> resident_bytes Len c" unfolding rb by (rule sum_list_nonneg_int[OF nn])
  have "?f (hd (ll c)) \<le> resident_bytes Len c"
    unfolding rb by (rule sum_list_hd_le[OF less.prems(3) nn])
  then have big: "sint (maxBytes c) < resident_bytes Len c" using less.prems(6) by simp
  have "- (2 ^ 63) \<le> resident_bytes Len c" using rb0 by simp
  from inv_sint_nbytes[OF less.prems(1) this less.prems(5)]
  have "sint (nbytes c) = resident_bytes Len c" .
  then have over: "maxBytes c <s nbytes c" using big by (simp add: word_sless_alt)
  have ne0: "maxBytes c \<noteq> 0" using less.prems(2) by auto
  define c1 where "c1 = fst (RemoveOldest Len c w)"
  define w1 where "w1 = ?g (last (ll c)) w"
  have r: "RemoveOldest Len c w = (c1, w1)"
    unfolding c1_def w1_def by (simp add: RemoveOldest_last[OF less.prems(1,3)])
  have sel: "ll c1 = butlast (ll c)" "elems c1 = elems c" "OnEvicted c1 = OnEvicted c"
    "maxBytes c1 = maxBytes c"
    unfolding c1_def by (simp_all add: RemoveOldest_last[OF less.prems(1,3)])
  have i1: "cache_inv Len c1" unfolding c1_def by (rule inv_RemoveOldest[OF less.prems(1)])
  have step: "evict Len (c, w) = evict Len (c1, w1)"
    using ne0 over r by (simp add: evict_step)
  have world: "fold ?g (rev (ll c)) w = fold ?g (rev (butlast (ll c))) w1"
    unfolding w1_def by (rule fold_rev_last[OF less.prems(3)])
  show ?case
  proof (cases "butlast (ll c) = []")
    case True
    have "nbytes c1 = 0" using invD_nbytes[OF i1] True by (simp add: sel)
    then have "\<not> (maxBytes c1 \<noteq> 0 \<and> maxBytes c1 <s nbytes c1)"
      using less.prems(2) by (simp add: sel word_sless_alt)
    then have "evict Len (c1, w1) = Some (c1, w1)" by (rule evict_stop)
    then have "evict Len (c, w) = Some (c1, fold ?g (rev (ll c)) w)"
      using step world True by simp
    then show ?thesis using i1 True sel by auto
  next
    case False
    have l: "length (ll c1) < length (ll c)" using less.prems(3) by (simp add: sel)
    have p2: "0 <s maxBytes c1" using less.prems(2) by (simp add: sel)
    have p3: "ll c1 \<noteq> []" using False by (simp add: sel)
    have p4: "\<forall>a \<in> set (ll c1). 0 \<le> entry_len Len (elems c1 ! a)"
      using nn by (auto simp: sel dest: in_set_butlastD)
    have "resident_bytes Len c1 \<le> resident_bytes Len c"
      unfolding resident_bytes_entry_len sel by (rule sum_list_butlast_le[OF nn])
    then have p5: "resident_bytes Len c1 < 2 ^ 63" using less.prems(5) by simp
    have "hd (butlast (ll c)) = hd (ll c)" using False by (cases "ll c") (auto split: if_splits)
    then have p6: "sint (maxBytes c1) < entry_len Len (elems c1 ! hd (ll c1))"
      using less.prems(6) by (simp add: sel)
    from less.hyps[OF l i1 p2 p3 p4 p5 p6, of w1] obtain c' where
      res: "evict Len (c1, w1) =
            Some (c', fold (\<lambda>a. call_OnEvicted (OnEvicted c1) (elems c1 ! a)) (rev (ll c1)) w1)"
      "cache_inv Len c'" "ll c' = []" "maxBytes c' = maxBytes c1"
      "OnEvicted c' = OnEvicted c1" "elems c' = elems c1"
      by (elim exE conjE) (rule that)
    have "evict Len (c, w) = Some (c', fold ?g (rev (ll c)) w)"
      using step res(1) world by (simp add: sel)
    then show ?thesis using res(2-6) sel by auto
  qed
qed

lemma Add_store_entries:
  assumes "cache_inv Len c" "\<forall>a \<in> set (ll c). P (elems c ! a)" "P \<lparr>key = k, val = v\<rparr>"
  shows "\<forall>a \<in> set (ll (Add_store Len c k v)). P (elems (Add_store Len c k v) ! a)"
proof (cases "cache c k")
  case None
  have lt: "a < length (elems c)" if "a \<in> set (ll c)" for a
    using invD_lt[OF assms(1) that] .
  show ?thesis
  proof
    fix a assume "a \<in> set (ll (Add_store Len c k v))"
    then have "a = length (elems c) \<or> a \<in> set (ll c)" by (simp add: Add_store_new[OF None])
    then show "P (elems (Add_store Len c k v) ! a)"
    proof
      assume "a = length (elems c)"
      then show ?thesis using assms(3) by (simp add: Add_store_new[OF None])
    next
      assume a: "a \<in> set (ll c)"
      then show ?thesis using lt[OF a] assms(2) by (simp add: Add_store_new[OF None] nth_append)
    qed
  qed
next
  case (Some e)
  from invD_map[OF assms(1) Some] have e: "e \<in> set (ll c)" "key (elems c ! e) = k" by simp_all
  have e_lt: "e < length (elems c)" using invD_lt[OF assms(1) e(1)] .
  have upd: "(elems c ! e)\<lparr>val := v\<rparr> = \<lparr>key = k, val = v\<rparr>" using e(2) by simp
  show ?thesis
  proof
    fix a assume "a \<in> set (ll (Add_store Len c k v))"
    then have a: "a \<in> set (ll c)"
      using e(1) set_remove1_subset[of e "ll c"] by (auto simp: Add_store_old[OF Some] MoveToFront_def)
    show "P (elems (Add_store Len c k v) ! a)"
    proof (cases "a = e")
      case True
      then show ?thesis using e_lt assms(3) upd by (simp add: Add_store_old[OF Some])
    next
      case False
      then show ?thesis using a assms(2) by (simp add: Add_store_old[OF Some])
    qed
  qed
qed

lemma Add_oversized:
  assumes "cache_inv Len c" and "0 <s maxBytes c"
    and "sint (maxBytes c) < entry_len Len \<lparr>key = k, val = v\<rparr>"
    and "\<forall>a \<in> set (ll c). 0 \<le> entry_len Len (elems c ! a)"
    and "resident_bytes Len (Add_store Len c k v) < 2 ^ 63"
  shows "\<exists>c' a rest.
           ll (Add_store Len c k v) = a # rest \<and>
           elems (Add_store Len c k v) ! a = \<lparr>key = k, val = v\<rparr> \<and>
           Add Len c k v w =
             Some (c', call_OnEvicted (OnEvicted c) \<lparr>key = k, val = v\<rparr>
                         (fold (\<lambda>b. call_OnEvicted (OnEvicted c) (elems (Add_store Len c k v) ! b))
                            (rev rest) w)) \<and>
           ll c' = [] \<and> cache c' = Map.empty \<and> nbytes c' = 0 \<and> Len_Cache c' = 0 \<and>
           Get c' k = (None, c')"
proof -
  define c1 where "c1 = Add_store Len c k v"
  have i1: "cache_inv Len c1" unfolding c1_def by (rule inv_Add_store[OF assms(1)])
  have m1: "maxBytes c1 = maxBytes c" unfolding c1_def by (rule Add_store_maxBytes)
  have o1: "OnEvicted c1 = OnEvicted c" unfolding c1_def by (rule Add_store_OnEvicted)
  from Add_store_head[OF assms(1), of k v] obtain a rest where
    h: "ll c1 = a # rest" "elems c1 ! a = \<lparr>key = k, val = v\<rparr>" unfolding c1_def by blast
  have new_pos: "0 \<le> entry_len Len \<lparr>key = k, val = v\<rparr>"
  proof -
    have "0 \<le> sint (maxBytes c)" using assms(2) by (simp add: word_sless_alt)
    then show ?thesis using assms(3) by simp
  qed
  have p2: "0 <s maxBytes c1" using assms(2) m1 by simp
  have p3: "ll c1 \<noteq> []" using h(1) by simp
  have p4: "\<forall>b \<in> set (ll c1). 0 \<le> entry_len Len (elems c1 ! b)"
    unfolding c1_def
    by (rule Add_store_entries[where P = "\<lambda>e. 0 \<le> entry_len Len e", OF assms(1,4) new_pos])
  have p5: "resident_bytes Len c1 < 2 ^ 63" using assms(5) by (simp add: c1_def)
  have p6: "sint (maxBytes c1) < entry_len Len (elems c1 ! hd (ll c1))"
    using assms(3) by (simp add: h m1)
  from evict_all[OF i1 p2 p3 p4 p5 p6, of w] obtain c' where
    res: "evict Len (c1, w) =
            Some (c', fold (\<lambda>b. call_OnEvicted (OnEvicted c1) (elems c1 ! b)) (rev (ll c1)) w)"
    "cache_inv Len c'" "ll c' = []" by (elim exE conjE) (rule that)
  have world: "fold (\<lambda>b. call_OnEvicted (OnEvicted c1) (elems c1 ! b)) (rev (ll c1)) w =
      call_OnEvicted (OnEvicted c) \<lparr>key = k, val = v\<rparr>
        (fold (\<lambda>b. call_OnEvicted (OnEvicted c) (elems c1 ! b)) (rev rest) w)"
    by (simp add: h o1)
  have add: "Add Len c k v w =
      Some (c', call_OnEvicted (OnEvicted c) \<lparr>key = k, val = v\<rparr>
        (fold (\<lambda>b. call_OnEvicted (OnEvicted c) (elems c1 ! b)) (rev rest) w))"
    using res(1) world by (simp add: Add_def c1_def)
  have empty: "cache c' = Map.empty"
  proof (rule ext)
    fix k'
    show "cache c' k' = None"
    proof (cases "cache c' k'")
      case None
      then show ?thesis .
    next
      case (Some b)
      from invD_map[OF res(2) Some] res(3) show ?thesis by simp
    qed
  qed
  have n0: "nbytes c' = 0" using invD_nbytes[OF res(2)] res(3) by simp
  have l0: "Len_Cache c' = 0" using res(3) by (simp add: Len_Cache_def)
  have g0: "Get c' k = (None, c')" using empty by (simp add: Get_def)
  show ?thesis
    using h add res(3) empty n0 l0 g0 unfolding c1_def by blast
qed

lemma RemoveOldest_no_callback:
  "OnEvicted c = None \<Longrightarrow> snd (RemoveOldest Len c w) = w"
  by (cases "ll c = []") (simp_all add: RemoveOldest_empty RemoveOldest_nonempty_snd)

lemma evict_no_callback_aux:
  assumes "evict Len cw = Some cw'"
  shows "OnEvicted (fst cw) = None \<longrightarrow> snd cw' = snd cw"
proof (rule evict.raw_induct[where P = "\<lambda>Len cw cw'. OnEvicted (fst cw) = None \<longrightarrow> snd cw' = snd cw",
      OF _ assms])
  fix ev :: "('a \<Rightarrow> int) \<Rightarrow> ('a, 'b) Cache \<times> 'b \<Rightarrow> (('a, 'b) Cache \<times> 'b) option"
  fix L x y
  assume IH: "\<And>cw b y. ev cw b = Some y \<Longrightarrow> OnEvicted (fst b) = None \<longrightarrow> snd y = snd b"
  assume body: "(if maxBytes (fst x) \<noteq> 0 \<and> maxBytes (fst x) <s nbytes (fst x)
        then ev L (RemoveOldest L (fst x) (snd x)) else Some x) = Some y"
  show "OnEvicted (fst x) = None \<longrightarrow> snd y = snd x"
  proof (cases "maxBytes (fst x) \<noteq> 0 \<and> maxBytes (fst x) <s nbytes (fst x)")
    case False
    then have "y = x" using body by (auto split: if_splits)
    then show ?thesis by simp
  next
    case True
    then have "ev L (RemoveOldest L (fst x) (snd x)) = Some y" using body by simp
    from IH[OF this] show ?thesis
      by (simp add: RemoveOldest_OnEvicted RemoveOldest_no_callback)
  qed
qed

lemma Add_no_callback:
  "Add Len c k v w = Some (c', w') \<Longrightarrow> OnEvicted c = None \<Longrightarrow> w' = w"
  using evict_no_callback_aux[of Len "(Add_store Len c k v, w)" "(c', w')"]
  by (simp add: Add_def Add_store_OnEvicted)

lemma cache_add_total:
  assumes "mainCache_inv mc" "0 \<le>s cacheBytes mc"
  shows "\<exists>mc'. cache_add mc k v w = Some (mc', w)"
proof -
  define c :: "(ByteView, 'a) Cache" where
    "c = (case lru mc of None \<Rightarrow> New (cacheBytes mc) None | Some c \<Rightarrow> c)"
  have i: "cache_inv Len_ByteView c"
    using assms(1) by (cases "lru mc") (simp_all add: c_def mainCache_inv_def inv_New)
  have m: "maxBytes c = cacheBytes mc"
    using assms(1) by (cases "lru mc") (simp_all add: c_def mainCache_inv_def New_def)
  have o: "OnEvicted c = None"
    using assms(1) by (cases "lru mc") (simp_all add: c_def mainCache_inv_def New_def)
  have p: "0 \<le>s maxBytes c" using assms(2) m by simp
  from Add_total[OF i p, of k v w] obtain c' w' where
    a: "Add Len_ByteView c k v w = Some (c', w')" by blast
  from Add_no_callback[OF a o] have "w' = w" .
  then show ?thesis using a by (simp add: cache_add_def c_def)
qed

lemma Group_Get_after_failed_peer:
  assumes "k \<noteq> []"
    and "fst (cache_get (mainCache g) k) = None"
    and "k \<notin> inflight (loader g)"
    and "peers g = Some pick"
    and "pick k w = (Some peer, w1)"
    and "peer (name g) k w1 = (Inl e, w2)"
  shows "Group_Get g k w =
     (case getter g k w2 of
        (Inl err, w3) \<Rightarrow> Some (Inl err, g, w3)
      | (Inr bytes, w3) \<Rightarrow>
          (case cache_add (mainCache g) k (ByteView bytes) w3 of
             None \<Rightarrow> None
           | Some (mc, w4) \<Rightarrow> Some (Inr (ByteView bytes), g\<lparr>mainCache := mc\<rparr>, w4)))"
proof -
  let ?g = "g\<lparr>loader := (loader g)\<lparr>inflight := insert k (inflight (loader g))\<rparr>\<rparr>"
  have miss: "cache_get (mainCache g) k = (None, mainCache g)"
    by (rule cache_get_miss[OF assms(2)])
  have peer: "getFromPeer ?g peer k w1 = (Inl e, w2)"
    using assms(6) by (simp add: getFromPeer_def)
  have fn: "load_fn k ?g w = getLocally ?g k w2"
    using assms(4,5) peer by (simp add: load_fn_def)
  have get: "Group_Get g k w = Do g k (load_fn k) w"
    using assms(1) miss by (simp add: Group_Get_def load_def)
  obtain r w3 where gt: "getter g k w2 = (r, w3)" by (cases "getter g k w2")
  show ?thesis
  proof (cases r)
    case (Inl err)
    then have "load_fn k ?g w = Some (Inl err, ?g, w3)"
      using fn gt by (simp add: getLocally_def)
    then have "Do g k (load_fn k) w = Some (Inl err, g, w3)"
      using assms(3) by (simp add: Do_def)
    then show ?thesis using get gt Inl by simp
  next
    case (Inr bytes)
    show ?thesis
    proof (cases "cache_add (mainCache g) k (ByteView bytes) w3")
      case None
      then have "load_fn k ?g w = None"
        using fn gt Inr by (simp add: getLocally_def populateCache_def cloneBytes_def)
      then have "Do g k (load_fn k) w = None" using assms(3) by (simp add: Do_def)
      then show ?thesis using get gt Inr None by simp
    next
      case (Some a)
      obtain mc w4 where a: "a = (mc, w4)" by (cases a)
      have "load_fn k ?g w = Some (Inr (ByteView bytes), ?g\<lparr>mainCache := mc\<rparr>, w4)"
        using fn gt Inr Some a by (simp add: getLocally_def populateCache_def cloneBytes_def)
      then have "Do g k (load_fn k) w = Some (Inr (ByteView bytes), g\<lparr>mainCache := mc\<rparr>, w4)"
        using assms(3) by (simp add: Do_def)
      then show ?thesis using get gt Inr Some a by simp
    qed
  qed
qed

lemma resident_bytes_Add_store_le:
  assumes "cache_inv Len c" "\<forall>a \<in> set (ll c). 0 \<le> entry_len Len (elems c ! a)"
  shows "resident_bytes Len (Add_store Len c k v)
           \<le> resident_bytes Len c + entry_len Len \<lparr>key = k, val = v\<rparr>"
proof (cases "cache c k")
  case None
  have lt: "a < length (elems c)" if "a \<in> set (ll c)" for a
    using invD_lt[OF assms(1) that] .
  have "(\<Sum>a\<leftarrow>ll c. entry_len Len ((elems c @ [\<lparr>key = k, val = v\<rparr>]) ! a))
      = (\<Sum>a\<leftarrow>ll c. entry_len Len (elems c ! a))"
    by (rule sum_list_cong_set) (simp add: lt nth_append)
  then show ?thesis
    by (simp add: resident_bytes_entry_len Add_store_new[OF None])
next
  case (Some e)
  from invD_map[OF assms(1) Some] have e: "e \<in> set (ll c)" "key (elems c ! e) = k" by simp_all
  have e_lt: "e < length (elems c)" using invD_lt[OF assms(1) e(1)] .
  have d: "distinct (ll c)" by (rule invD_distinct[OF assms(1)])
  have upd: "(elems c ! e)\<lparr>val := v\<rparr> = \<lparr>key = k, val = v\<rparr>" using e(2) by simp
  let ?es = "(elems c)[e := \<lparr>key = k, val = v\<rparr>]"
  have rest: "(\<Sum>a\<leftarrow>remove1 e (ll c). entry_len Len (?es ! a))
      = (\<Sum>a\<leftarrow>remove1 e (ll c). entry_len Len (elems c ! a))"
    by (rule sum_list_cong_set) (use d in auto)
  have "(\<Sum>a\<leftarrow>ll c. entry_len Len (elems c ! a))
      = entry_len Len (elems c ! e) + (\<Sum>a\<leftarrow>remove1 e (ll c). entry_len Len (elems c ! a))"
    by (rule sum_list_map_remove1[OF e(1)])
  moreover have "0 \<le> entry_len Len (elems c ! e)" using assms(2) e(1) by simp
  ultimately have le: "(\<Sum>a\<leftarrow>remove1 e (ll c). entry_len Len (elems c ! a))
      \<le> (\<Sum>a\<leftarrow>ll c. entry_len Len (elems c ! a))" by simp
  have "resident_bytes Len (Add_store Len c k v)
      = entry_len Len \<lparr>key = k, val = v\<rparr> + (\<Sum>a\<leftarrow>remove1 e (ll c). entry_len Len (?es ! a))"
    using e(1) e_lt by (simp add: resident_bytes_entry_len Add_store_old[OF Some] MoveToFront_def upd)
  then show ?thesis using le rest by (simp add: resident_bytes_entry_len)
qed

section \<open>The claims about the eviction store\<close>

text \<open>
  C7. After every operation of the eviction store (\<^verbatim>\<open>Get\<close>, \<^verbatim>\<open>Add\<close>, \<^verbatim>\<open>RemoveOldest\<close>) the
  recency list and the key index map hold exactly the same keys: every element of the
  list is the map's value at its own key, and every value of the map is an element of the
  list that carries that key. This holds for every store built by \<^verbatim>\<open>New\<close> and every
  sequence of operations that returns; with a capacity that is not negative every
  sequence returns.
\<close>

theorem list_and_map_hold_the_same_keys:
  "(run_ops Len xs (New mb cb, w) = Some (c, w') \<longrightarrow>
      list_keys c = dom (cache c) \<and>
      (\<forall>a \<in> set (ll c). cache c (key (elems c ! a)) = Some a) \<and>
      (\<forall>k a. cache c k = Some a \<longrightarrow> a \<in> set (ll c) \<and> key (elems c ! a) = k)) \<and>
   (0 \<le>s mb \<longrightarrow> run_ops Len xs (New mb cb, w) \<noteq> None)"
proof (intro conjI impI)
  assume r: "run_ops Len xs (New mb cb, w) = Some (c, w')"
  from run_ops_partial[OF r inv_New] have i: "cache_inv Len c" by simp
  show "list_keys c = dom (cache c)" by (rule inv_list_keys[OF i])
  show "\<forall>a \<in> set (ll c). cache c (key (elems c ! a)) = Some a" using invD_ll[OF i] by blast
  show "\<forall>k a. cache c k = Some a \<longrightarrow> a \<in> set (ll c) \<and> key (elems c ! a) = k"
    using invD_map[OF i] by blast
next
  assume "0 \<le>s mb"
  then have "0 \<le>s maxBytes (New mb cb :: ('a, 'b) Cache)" by (simp add: New_def)
  from run_ops_total[OF inv_New this, of Len xs w] show "run_ops Len xs (New mb cb, w) \<noteq> None"
    by auto
qed

theorem list_and_map_hold_the_same_keys_witness:
  "0 \<le>s (4 :: int64) \<and>
   (\<exists>c. run_ops (\<lambda>v. int (length v))
          [OpAdd ''a'' ''xy'', OpGet ''a'', OpAdd ''b'' ''z'', OpRemoveOldest, OpAdd ''c'' ''''] (New 4 None, ())
        = Some (c, ()) \<and> ll c = [2] \<and> list_keys c = {''c''} \<and> dom (cache c) = {''c''})"
proof -
  let ?Len = "\<lambda>v :: string. int (length v)"
  let ?ops = "[OpAdd ''a'' ''xy'', OpGet ''a'', OpAdd ''b'' ''z'', OpRemoveOldest, OpAdd ''c'' '''']"
  have pos: "0 \<le>s (4 :: int64)" by (simp add: word_sle_eq)
  obtain c :: "(string, unit) Cache" where
    run: "run_ops ?Len ?ops (New 4 None, ()) = Some (c, ())" and l: "ll c = [2]"
    and e: "elems c ! 2 = \<lparr>key = ''c'', val = ''''\<rparr>"
    by (simp add: lru_eval)
  have k: "list_keys c = {''c''}" by (simp add: list_keys_def l e)
  from list_and_map_hold_the_same_keys[of ?Len ?ops 4 None "()" c "()"] run
  have "list_keys c = dom (cache c)" by blast
  then show ?thesis using pos run l k by auto
qed

text \<open>
  C1. For every sequence of \<^verbatim>\<open>Add\<close> operations on a store of capacity \<open>maxBytes > 0\<close>, each
  \<^verbatim>\<open>Add\<close> returns, and afterwards \<open>nbytes \<le> maxBytes\<close> and \<open>nbytes\<close> is the sum over the
  resident entries of key length plus value length (computed in \<^verbatim>\<open>int64\<close>; it is the
  mathematical sum whenever that sum is an \<^verbatim>\<open>int64\<close>). With \<open>maxBytes = 0\<close> the store is
  unbounded: nothing is evicted, the callback is never called, and every key added is
  resident with the value added last.
\<close>

theorem total_size_within_capacity:
  "(0 <s mb \<longrightarrow>
      (\<exists>c w'. Adds Len kvs (New mb cb, w) = Some (c, w') \<and>
         nbytes c \<le>s mb \<and>
         nbytes c = (\<Sum>a\<leftarrow>ll c. entry_bytes Len (elems c ! a)) \<and>
         (- (2 ^ 63) \<le> resident_bytes Len c \<and> resident_bytes Len c < 2 ^ 63 \<longrightarrow>
            sint (nbytes c) = resident_bytes Len c))) \<and>
   (mb = 0 \<longrightarrow>
      (\<exists>c. Adds Len kvs (New mb cb, w) = Some (c, w) \<and>
         resident c = map_of (rev kvs) \<and>
         nbytes c = (\<Sum>a\<leftarrow>ll c. entry_bytes Len (elems c ! a)) \<and>
         (- (2 ^ 63) \<le> resident_bytes Len c \<and> resident_bytes Len c < 2 ^ 63 \<longrightarrow>
            sint (nbytes c) = resident_bytes Len c)))"
proof (intro conjI impI)
  assume pos: "0 <s mb"
  let ?c0 = "New mb cb :: ('a, 'b) Cache"
  have p: "0 \<le>s maxBytes ?c0" using pos by (simp add: New_def word_sless_alt word_sle_eq)
  have b: "within_capacity ?c0" using pos by (simp add: within_capacity_def New_def word_sless_alt word_sle_eq)
  from Adds_total[OF inv_New p b, where kvs=kvs and w=w] obtain c w' where
    r: "Adds Len kvs (?c0, w) = Some (c, w')" and i: "cache_inv Len c"
    and m: "maxBytes c = maxBytes ?c0" and wc: "within_capacity c" by blast
  have "mb \<noteq> 0" using pos by auto
  then have "nbytes c \<le>s mb" using wc m by (simp add: within_capacity_def New_def)
  then show "\<exists>c w'. Adds Len kvs (New mb cb, w) = Some (c, w') \<and>
         nbytes c \<le>s mb \<and>
         nbytes c = (\<Sum>a\<leftarrow>ll c. entry_bytes Len (elems c ! a)) \<and>
         (- (2 ^ 63) \<le> resident_bytes Len c \<and> resident_bytes Len c < 2 ^ 63 \<longrightarrow>
            sint (nbytes c) = resident_bytes Len c)"
    using r invD_nbytes[OF i] inv_sint_nbytes[OF i] by blast
next
  assume z: "mb = 0"
  let ?c0 = "New mb cb :: ('a, 'b) Cache"
  have m: "maxBytes ?c0 = 0" using z by (simp add: New_def)
  from Adds_unbounded[OF inv_New m, where kvs=kvs and w=w] obtain c where
    r: "Adds Len kvs (?c0, w) = Some (c, w)" and i: "cache_inv Len c"
    and res: "resident c = resident ?c0 ++ map_of (rev kvs)" by blast
  have "resident ?c0 = Map.empty" by (simp add: resident_def New_def fun_eq_iff)
  then have "resident c = map_of (rev kvs)" using res by simp
  then show "\<exists>c. Adds Len kvs (New mb cb, w) = Some (c, w) \<and>
         resident c = map_of (rev kvs) \<and>
         nbytes c = (\<Sum>a\<leftarrow>ll c. entry_bytes Len (elems c ! a)) \<and>
         (- (2 ^ 63) \<le> resident_bytes Len c \<and> resident_bytes Len c < 2 ^ 63 \<longrightarrow>
            sint (nbytes c) = resident_bytes Len c)"
    using r invD_nbytes[OF i] inv_sint_nbytes[OF i] by blast
qed

theorem total_size_within_capacity_witness:
  "0 <s (4 :: int64) \<and>
   (\<exists>c. Adds (\<lambda>v. int (length v)) [(''a'', ''xy''), (''b'', ''z'')] (New 4 None, ()) = Some (c, ()) \<and>
        ll c = [1] \<and> nbytes c = 2 \<and> nbytes c \<le>s 4 \<and>
        resident_bytes (\<lambda>v. int (length v)) c = 2 \<and>
        sint (nbytes c) = resident_bytes (\<lambda>v. int (length v)) c) \<and>
   (\<exists>c. Adds (\<lambda>v. int (length v)) [(''a'', ''xy''), (''b'', ''z'')] (New 0 None, ()) = Some (c, ()) \<and>
        ll c = [1, 0] \<and> resident c ''a'' = Some ''xy'' \<and> resident c ''b'' = Some ''z'' \<and>
        nbytes c = 5)"
proof -
  let ?Len = "\<lambda>v :: string. int (length v)"
  let ?kvs = "[(''a'', ''xy''), (''b'', ''z'')]"
  have pos: "0 <s (4 :: int64)" by (simp add: word_sless_alt)
  obtain c :: "(string, unit) Cache" where
    run: "Adds ?Len ?kvs (New 4 None, ()) = Some (c, ())" and l: "ll c = [1]"
    and e: "elems c = [\<lparr>key = ''a'', val = ''xy''\<rparr>, \<lparr>key = ''b'', val = ''z''\<rparr>]"
    and n: "nbytes c = 2"
    by (simp add: lru_eval)
  have rb: "resident_bytes ?Len c = 2" by (simp add: resident_bytes_def l e)
  from total_size_within_capacity[of 4 ?Len ?kvs None "()"] pos
  obtain c' w' where "Adds ?Len ?kvs (New 4 None, ()) = Some (c', w')" "nbytes c' \<le>s 4"
     "- (2 ^ 63) \<le> resident_bytes ?Len c' \<and> resident_bytes ?Len c' < 2 ^ 63 \<longrightarrow>
        sint (nbytes c') = resident_bytes ?Len c'"
    by blast
  moreover from this(1) run have "c' = c" by simp
  ultimately have "nbytes c \<le>s 4 \<and>
     (- (2 ^ 63) \<le> resident_bytes ?Len c \<and> resident_bytes ?Len c < 2 ^ 63 \<longrightarrow>
        sint (nbytes c) = resident_bytes ?Len c)"
    by blast
  then have A: "nbytes c \<le>s 4" "sint (nbytes c) = resident_bytes ?Len c"
    by (simp_all add: rb)
  from total_size_within_capacity[of 0 ?Len ?kvs None "()"]
  obtain c0 :: "(string, unit) Cache" where
    run0: "Adds ?Len ?kvs (New 0 None, ()) = Some (c0, ())"
    and r0: "resident c0 = map_of (rev ?kvs)"
    and n0: "nbytes c0 = (\<Sum>a\<leftarrow>ll c0. entry_bytes ?Len (elems c0 ! a))"
    by auto
  have "\<exists>c'. Adds ?Len ?kvs (New 0 None, ()) = Some (c', ()) \<and> ll c' = [1, 0] \<and>
      elems c' = [\<lparr>key = ''a'', val = ''xy''\<rparr>, \<lparr>key = ''b'', val = ''z''\<rparr>]"
    by (simp add: lru_eval)
  with run0 have l0: "ll c0 = [1, 0]"
    and e0: "elems c0 = [\<lparr>key = ''a'', val = ''xy''\<rparr>, \<lparr>key = ''b'', val = ''z''\<rparr>]" by auto
  have B: "resident c0 ''a'' = Some ''xy''" "resident c0 ''b'' = Some ''z''" "nbytes c0 = 5"
    by (simp_all add: r0 n0 l0 e0 entry_bytes_def)
  show ?thesis using pos run l n rb A run0 l0 B by blast
qed

text \<open>
  C2. A store holds the entries A, B, C, added in that order without eviction, and A is
  then read with \<^verbatim>\<open>Get\<close>. An \<^verbatim>\<open>Add\<close> of D that takes the total size over the capacity
  evicts B first: \<^verbatim>\<open>Get\<close> has moved A to the front of the recency order and eviction takes
  the back-most entry. After that first eviction the order is D, A, C, and B is gone; the
  callback, when set, has been called on B. When the size without B fits, the \<^verbatim>\<open>Add\<close>
  ends there.
\<close>

theorem get_protects_from_next_eviction:
  assumes keys: "distinct [kA, kB, kC, kD]"
    and cap: "mb \<noteq> 0"
    and sizes: "sA = entry_bytes Len \<lparr>key = kA, val = vA\<rparr>"
               "sB = entry_bytes Len \<lparr>key = kB, val = vB\<rparr>"
               "sC = entry_bytes Len \<lparr>key = kC, val = vC\<rparr>"
               "sD = entry_bytes Len \<lparr>key = kD, val = vD\<rparr>"
    and fitA: "\<not> mb <s sA" and fitB: "\<not> mb <s sA + sB" and fitC: "\<not> mb <s sA + sB + sC"
    and over: "mb <s sA + sB + sC + sD"
  shows "\<exists>c3 c4 c5.
           Adds Len [(kA, vA), (kB, vB), (kC, vC)] (New mb cb, w) = Some (c3, w) \<and>
           Get c3 kA = (Some vA, c4) \<and>
           Add Len c4 kD vD w =
             evict Len (c5, (case cb of None \<Rightarrow> w | Some f \<Rightarrow> f kB vB w)) \<and>
           map (\<lambda>a. key (elems c5 ! a)) (ll c5) = [kD, kA, kC] \<and>
           resident c5 kB = None \<and> resident c5 kA = Some vA \<and>
           resident c5 kC = Some vC \<and> resident c5 kD = Some vD \<and>
           nbytes c5 = sA + sC + sD \<and>
           (\<not> mb <s sA + sC + sD \<longrightarrow>
              Add Len c4 kD vD w =
                Some (c5, (case cb of None \<Rightarrow> w | Some f \<Rightarrow> f kB vB w)))"
proof -
  let ?eA = "\<lparr>key = kA, val = vA\<rparr>" and ?eB = "\<lparr>key = kB, val = vB\<rparr>"
  let ?eC = "\<lparr>key = kC, val = vC\<rparr>" and ?eD = "\<lparr>key = kD, val = vD\<rparr>"
  define c1 :: "('a, 'b) Cache" where
    "c1 = \<lparr>maxBytes = mb, nbytes = sA, ll = [0], cache = [kA \<mapsto> 0], OnEvicted = cb,
           elems = [?eA]\<rparr>"
  define c2 :: "('a, 'b) Cache" where
    "c2 = \<lparr>maxBytes = mb, nbytes = sA + sB, ll = [1, 0], cache = [kA \<mapsto> 0, kB \<mapsto> 1],
           OnEvicted = cb, elems = [?eA, ?eB]\<rparr>"
  define c3 :: "('a, 'b) Cache" where
    "c3 = \<lparr>maxBytes = mb, nbytes = sA + sB + sC, ll = [2, 1, 0],
           cache = [kA \<mapsto> 0, kB \<mapsto> 1, kC \<mapsto> 2], OnEvicted = cb, elems = [?eA, ?eB, ?eC]\<rparr>"
  define c4 :: "('a, 'b) Cache" where
    "c4 = \<lparr>maxBytes = mb, nbytes = sA + sB + sC, ll = [0, 2, 1],
           cache = [kA \<mapsto> 0, kB \<mapsto> 1, kC \<mapsto> 2], OnEvicted = cb, elems = [?eA, ?eB, ?eC]\<rparr>"
  define c4' :: "('a, 'b) Cache" where
    "c4' = \<lparr>maxBytes = mb, nbytes = sA + sB + sC + sD, ll = [3, 0, 2, 1],
           cache = [kA \<mapsto> 0, kB \<mapsto> 1, kC \<mapsto> 2, kD \<mapsto> 3], OnEvicted = cb,
           elems = [?eA, ?eB, ?eC, ?eD]\<rparr>"
  define c5 :: "('a, 'b) Cache" where
    "c5 = \<lparr>maxBytes = mb, nbytes = sA + sB + sC + sD - sB, ll = [3, 0, 2],
           cache = [kA \<mapsto> 0, kB \<mapsto> 1, kC \<mapsto> 2, kD \<mapsto> 3](kB := None), OnEvicted = cb,
           elems = [?eA, ?eB, ?eC, ?eD]\<rparr>"
  let ?w = "case cb of None \<Rightarrow> w | Some f \<Rightarrow> f kB vB w"
  have neq: "kA \<noteq> kB" "kA \<noteq> kC" "kA \<noteq> kD" "kB \<noteq> kC" "kB \<noteq> kD" "kC \<noteq> kD"
    "kB \<noteq> kA" "kC \<noteq> kA" "kD \<noteq> kA" "kC \<noteq> kB" "kD \<noteq> kB" "kD \<noteq> kC"
    using keys by auto
  have s1: "Add_store Len (New mb cb) kA vA = c1"
    by (simp add: Add_store_new New_def c1_def sizes)
  have s2: "Add_store Len c1 kB vB = c2"
    by (simp add: numeral_2_eq_2 numeral_3_eq_3 neq Add_store_def Let_def PushFront_def entry_bytes_def c1_def c2_def sizes)
  have s3: "Add_store Len c2 kC vC = c3"
    by (simp add: numeral_2_eq_2 numeral_3_eq_3 neq Add_store_def Let_def PushFront_def entry_bytes_def c2_def c3_def sizes)
  have s4: "Add_store Len c4 kD vD = c4'"
    by (simp add: numeral_2_eq_2 numeral_3_eq_3 neq Add_store_def Let_def PushFront_def entry_bytes_def c4_def c4'_def sizes)
  have a1: "Add Len (New mb cb) kA vA w = Some (c1, w)"
    by (rule Add_fits[of "New mb cb" Len kA vA w, unfolded s1]) (simp add: New_def c1_def fitA)
  have a2: "Add Len c1 kB vB w = Some (c2, w)"
    by (rule Add_fits[of c1 Len kB vB w, unfolded s2]) (simp add: c1_def c2_def fitB)
  have a3: "Add Len c2 kC vC w = Some (c3, w)"
    by (rule Add_fits[of c2 Len kC vC w, unfolded s3]) (simp add: c2_def c3_def fitC)
  have adds: "Adds Len [(kA, vA), (kB, vB), (kC, vC)] (New mb cb, w) = Some (c3, w)"
    by (simp add: Adds_Cons Adds_Nil a1 a2 a3)
  have get: "Get c3 kA = (Some vA, c4)"
    by (simp add: numeral_2_eq_2 numeral_3_eq_3 neq Get_def c3_def c4_def MoveToFront_def)
  have ne: "ll c4' \<noteq> []" by (simp add: c4'_def)
  have "fst (RemoveOldest Len c4' w) = c5"
    unfolding RemoveOldest_nonempty[OF ne] by (simp add: numeral_2_eq_2 numeral_3_eq_3 neq c4'_def c5_def sizes)
  moreover have "snd (RemoveOldest Len c4' w) = ?w"
    unfolding RemoveOldest_nonempty_snd[OF ne] by (simp add: c4'_def split: option.splits)
  ultimately have r: "RemoveOldest Len c4' w = (c5, ?w)" by (simp add: prod_eq_iff)
  have m4: "maxBytes c4' = mb" "nbytes c4' = sA + sB + sC + sD" by (simp_all add: c4'_def)
  have "evict Len (c4', w) = evict Len (RemoveOldest Len c4' w)"
    by (rule evict_step) (simp_all add: m4 cap over)
  then have step: "Add Len c4 kD vD w = evict Len (c5, ?w)"
    by (simp add: Add_def s4 r)
  have n5: "nbytes c5 = sA + sC + sD" by (simp add: c5_def)
  have m5: "maxBytes c5 = mb" by (simp add: c5_def)
  have order: "map (\<lambda>a. key (elems c5 ! a)) (ll c5) = [kD, kA, kC]"
    by (simp add: c5_def)
  have res: "resident c5 kB = None" "resident c5 kA = Some vA"
    "resident c5 kC = Some vC" "resident c5 kD = Some vD"
    by (simp_all add: numeral_2_eq_2 numeral_3_eq_3 neq resident_def c5_def)
  have stop: "Add Len c4 kD vD w = Some (c5, ?w)" if "\<not> mb <s sA + sC + sD"
    unfolding step by (rule evict_stop) (simp only: m5 n5 that, simp)
  show ?thesis
    by (intro exI[of _ c3] exI[of _ c4] exI[of _ c5] conjI impI adds get step order res n5 stop)
      assumption
qed

theorem get_protects_from_next_eviction_witness:
  "distinct [''A'', ''B'', ''C'', ''D''] \<and> (6 :: int64) \<noteq> 0 \<and>
   \<not> (6 :: int64) <s 2 \<and> \<not> (6 :: int64) <s 2 + 2 \<and> \<not> (6 :: int64) <s 2 + 2 + 2 \<and>
   (6 :: int64) <s 2 + 2 + 2 + 2 \<and> \<not> (6 :: int64) <s 2 + 2 + 2 \<and>
   (\<exists>c3 c4 c5.
      Adds (\<lambda>v. int (length v)) [(''A'', ''a''), (''B'', ''b''), (''C'', ''c'')]
        (New 6 (Some (\<lambda>k v w. w @ [(k, v)])), []) = Some (c3, []) \<and>
      Get c3 ''A'' = (Some ''a'', c4) \<and>
      Add (\<lambda>v. int (length v)) c4 ''D'' ''d'' [] = Some (c5, [(''B'', ''b'')]) \<and>
      map (\<lambda>a. key (elems c5 ! a)) (ll c5) = [''D'', ''A'', ''C''] \<and>
      resident c5 ''B'' = None \<and> resident c5 ''A'' = Some ''a'' \<and>
      resident c5 ''C'' = Some ''c'' \<and> resident c5 ''D'' = Some ''d'')"
proof -
  let ?Len = "\<lambda>v :: string. int (length v)"
  have s: "(2 :: int64) = entry_bytes ?Len \<lparr>key = ''A'', val = ''a''\<rparr>"
    "(2 :: int64) = entry_bytes ?Len \<lparr>key = ''B'', val = ''b''\<rparr>"
    "(2 :: int64) = entry_bytes ?Len \<lparr>key = ''C'', val = ''c''\<rparr>"
    "(2 :: int64) = entry_bytes ?Len \<lparr>key = ''D'', val = ''d''\<rparr>"
    by (simp_all add: entry_bytes_def)
  have h: "distinct [''A'', ''B'', ''C'', ''D'']" "(6 :: int64) \<noteq> 0"
    "\<not> (6 :: int64) <s 2" "\<not> (6 :: int64) <s 2 + 2" "\<not> (6 :: int64) <s 2 + 2 + 2"
    "(6 :: int64) <s 2 + 2 + 2 + 2"
    by simp_all
  from get_protects_from_next_eviction[OF h(1,2) s h(3-6),
      of "Some (\<lambda>k v w. w @ [(k, v)])" "[]"] h
  show ?thesis by simp (elim exE conjE, intro exI conjI, assumption+)
qed

text \<open>
  C10. Adding one entry whose size (key length plus value length) alone exceeds a
  positive capacity returns without error, and the loop of \<^verbatim>\<open>Add\<close> evicts that very entry:
  the store is left empty, the callback, when set, is called on the entry (after the calls
  on the older entries, back to front), and a \<^verbatim>\<open>Get\<close> of the key right afterwards finds
  nothing. This holds for every well-formed store, whatever it holds and whether or not
  the key is already resident, as long as sizes are what lengths are: no resident entry
  has a negative size, and the total with the new entry is an \<^verbatim>\<open>int64\<close>.
\<close>

theorem oversized_entry_is_evicted_at_once:
  assumes "cache_inv Len c" and "0 <s maxBytes c"
    and "sint (maxBytes c) < entry_len Len \<lparr>key = k, val = v\<rparr>"
    and "\<forall>a \<in> set (ll c). 0 \<le> entry_len Len (elems c ! a)"
    and "resident_bytes Len c + entry_len Len \<lparr>key = k, val = v\<rparr> < 2 ^ 63"
  shows "\<exists>c' a rest.
           ll (Add_store Len c k v) = a # rest \<and>
           elems (Add_store Len c k v) ! a = \<lparr>key = k, val = v\<rparr> \<and>
           Add Len c k v w =
             Some (c', call_OnEvicted (OnEvicted c) \<lparr>key = k, val = v\<rparr>
                         (fold (\<lambda>b. call_OnEvicted (OnEvicted c) (elems (Add_store Len c k v) ! b))
                            (rev rest) w)) \<and>
           ll c' = [] \<and> cache c' = Map.empty \<and> nbytes c' = 0 \<and> Len_Cache c' = 0 \<and>
           Get c' k = (None, c')"
proof -
  have "resident_bytes Len (Add_store Len c k v) < 2 ^ 63"
    using resident_bytes_Add_store_le[OF assms(1,4), of k v] assms(5) by simp
  from Add_oversized[OF assms(1,2,3,4) this] show ?thesis .
qed

theorem oversized_entry_is_evicted_at_once_witness:
  "cache_inv (\<lambda>v. int (length v)) one_entry_store \<and> 0 <s maxBytes one_entry_store \<and>
   sint (maxBytes one_entry_store) < entry_len (\<lambda>v. int (length v)) \<lparr>key = ''k'', val = ''abcdef''\<rparr> \<and>
   resident one_entry_store ''a'' = Some ''x'' \<and>
   (\<exists>c'. Add (\<lambda>v. int (length v)) one_entry_store ''k'' ''abcdef'' [] =
            Some (c', [(''a'', ''x''), (''k'', ''abcdef'')]) \<and>
          ll c' = [] \<and> cache c' = Map.empty \<and> nbytes c' = 0 \<and> Get c' ''k'' = (None, c'))"
proof -
  let ?Len = "\<lambda>v :: string. int (length v)"
  let ?c = one_entry_store
  have 1: "cache_inv ?Len ?c"
    by (simp add: cache_inv_def one_entry_store_def entry_bytes_def)
  have 2: "0 <s maxBytes ?c" by (simp add: one_entry_store_def word_sless_alt)
  have 3: "sint (maxBytes ?c) < entry_len ?Len \<lparr>key = ''k'', val = ''abcdef''\<rparr>"
    by (simp add: one_entry_store_def entry_len_def)
  have 4: "\<forall>a \<in> set (ll ?c). 0 \<le> entry_len ?Len (elems ?c ! a)"
    by (simp add: one_entry_store_def entry_len_def)
  have 5: "resident_bytes ?Len ?c + entry_len ?Len \<lparr>key = ''k'', val = ''abcdef''\<rparr> < 2 ^ 63"
    by (simp add: one_entry_store_def entry_len_def resident_bytes_def)
  have r: "resident ?c ''a'' = Some ''x''" by (simp add: one_entry_store_def resident_def)
  have l: "ll (Add_store ?Len ?c ''k'' ''abcdef'') = [1, 0]"
    and e: "elems (Add_store ?Len ?c ''k'' ''abcdef'') =
      [\<lparr>key = ''a'', val = ''x''\<rparr>, \<lparr>key = ''k'', val = ''abcdef''\<rparr>]"
    by (simp_all add: one_entry_store_def Add_store_def Let_def PushFront_def)
  from oversized_entry_is_evicted_at_once[OF 1 2 3 4 5, of "[]"] obtain c' a rest where
    h: "ll (Add_store ?Len ?c ''k'' ''abcdef'') = a # rest"
    and a: "Add ?Len ?c ''k'' ''abcdef'' [] =
       Some (c', call_OnEvicted (OnEvicted ?c) \<lparr>key = ''k'', val = ''abcdef''\<rparr>
                  (fold (\<lambda>b. call_OnEvicted (OnEvicted ?c) (elems (Add_store ?Len ?c ''k'' ''abcdef'') ! b))
                     (rev rest) []))"
    and z: "ll c' = []" "cache c' = Map.empty" "nbytes c' = 0" "Get c' ''k'' = (None, c')"
    by (elim exE conjE) (rule that)
  have rest: "rest = [0]" using h l by simp
  have "Add ?Len ?c ''k'' ''abcdef'' [] = Some (c', [(''a'', ''x''), (''k'', ''abcdef'')])"
    unfolding a rest e by (simp add: call_OnEvicted_def one_entry_store_def)
  then show ?thesis using 1 2 3 r z by blast
qed

section \<open>The claims about the group, the registry and the peer server\<close>

text \<open>
  C3, as amended. For a non-empty key that misses locally and is not in flight: if the
  peer picker nominates a remote peer and the fetch from it fails, \<^verbatim>\<open>Group.Get\<close> falls
  through to the local loader instead of returning the peer's error. What it returns is
  what the loader path yields: a loader error is returned as it is, with the group
  unchanged, and on loader success the loaded bytes are handed to the local store's
  \<^verbatim>\<open>add\<close>. When the store is well-formed and \<open>cacheBytes\<close> is not negative, that \<^verbatim>\<open>Get\<close>
  returns the loaded value. When moreover the store is unbounded (\<open>cacheBytes = 0\<close>) or the
  entry (key length plus value length) fits a positive \<open>cacheBytes\<close>, a second \<^verbatim>\<open>Get\<close> for
  the key is a local hit that calls neither the loader nor the picker, whatever they are,
  and leaves the world as it finds it.
\<close>

theorem fallback_to_loader_then_local_hit:
  assumes "k \<noteq> []"
    and "fst (cache_get (mainCache g) k) = None"
    and "k \<notin> inflight (loader g)"
    and "peers g = Some pick"
    and "pick k w = (Some peer, w1)"
    and "peer (name g) k w1 = (Inl e, w2)"
  shows "Group_Get g k w =
           (case getter g k w2 of
              (Inl err, w3) \<Rightarrow> Some (Inl err, g, w3)
            | (Inr bytes, w3) \<Rightarrow>
                (case cache_add (mainCache g) k (ByteView bytes) w3 of
                   None \<Rightarrow> None
                 | Some (mc, w4) \<Rightarrow> Some (Inr (ByteView bytes), g\<lparr>mainCache := mc\<rparr>, w4))) \<and>
         (\<forall>bytes w3.
            getter g k w2 = (Inr bytes, w3) \<and> mainCache_inv (mainCache g) \<longrightarrow>
            (0 \<le>s cacheBytes (mainCache g) \<longrightarrow>
               (\<exists>g1. Group_Get g k w = Some (Inr (ByteView bytes), g1, w3))) \<and>
            (cacheBytes (mainCache g) = 0 \<or>
             (0 <s cacheBytes (mainCache g) \<and>
              entry_bytes Len_ByteView \<lparr>key = k, val = ByteView bytes\<rparr> \<le>s cacheBytes (mainCache g)) \<longrightarrow>
               (\<exists>g1. Group_Get g k w = Some (Inr (ByteView bytes), g1, w3) \<and>
                  (\<forall>gt pk w'. \<exists>g2.
                     Group_Get (g1\<lparr>getter := gt, peers := pk\<rparr>) k w' =
                       Some (Inr (ByteView bytes), g2, w')) \<and>
                  Get_twice g k w = Some (Inr (ByteView bytes), Inr (ByteView bytes), w3))))"
proof (intro conjI allI impI)
  note eq = Group_Get_after_failed_peer[OF assms]
  show "Group_Get g k w =
           (case getter g k w2 of
              (Inl err, w3) \<Rightarrow> Some (Inl err, g, w3)
            | (Inr bytes, w3) \<Rightarrow>
                (case cache_add (mainCache g) k (ByteView bytes) w3 of
                   None \<Rightarrow> None
                 | Some (mc, w4) \<Rightarrow> Some (Inr (ByteView bytes), g\<lparr>mainCache := mc\<rparr>, w4)))"
    by (rule eq)
  fix bytes w3
  assume h: "getter g k w2 = (Inr bytes, w3) \<and> mainCache_inv (mainCache g)"
  let ?v = "ByteView bytes"
  {
    assume "0 \<le>s cacheBytes (mainCache g)"
    from cache_add_total[OF conjunct2[OF h] this, of k ?v w3] obtain mc' where
      "cache_add (mainCache g) k ?v w3 = Some (mc', w3)" by blast
    then have "Group_Get g k w = Some (Inr ?v, g\<lparr>mainCache := mc'\<rparr>, w3)"
      using eq h by simp
    then show "\<exists>g1. Group_Get g k w = Some (Inr ?v, g1, w3)" by blast
  }
  {
    assume fits: "cacheBytes (mainCache g) = 0 \<or>
             (0 <s cacheBytes (mainCache g) \<and>
              entry_bytes Len_ByteView \<lparr>key = k, val = ?v\<rparr> \<le>s cacheBytes (mainCache g))"
    from cache_add_keeps[OF conjunct2[OF h] fits, of w3] obtain mc' where
      add: "cache_add (mainCache g) k ?v w3 = Some (mc', w3)"
      and hit: "fst (cache_get mc' k) = Some ?v" by blast
    define g1 where "g1 = g\<lparr>mainCache := mc'\<rparr>"
    have first: "Group_Get g k w = Some (Inr ?v, g1, w3)"
      using eq h add by (simp add: g1_def)
    have second: "\<exists>g2. Group_Get (g1\<lparr>getter := gt, peers := pk\<rparr>) k w' = Some (Inr ?v, g2, w')"
      for gt pk w'
    proof -
      obtain r mc2 where cg: "cache_get mc' k = (r, mc2)" by (cases "cache_get mc' k")
      then have "r = Some ?v" using hit by simp
      then show ?thesis using assms(1) cg by (simp add: Group_Get_def g1_def)
    qed
    from second[where gt="getter g1" and pk="peers g1" and w'=w3] obtain g2 where
      "Group_Get g1 k w3 = Some (Inr ?v, g2, w3)" by auto
    then have twice: "Get_twice g k w = Some (Inr ?v, Inr ?v, w3)"
      using first by (simp add: Get_twice_def)
    show "\<exists>g1. Group_Get g k w = Some (Inr ?v, g1, w3) \<and>
                  (\<forall>gt pk w'. \<exists>g2.
                     Group_Get (g1\<lparr>getter := gt, peers := pk\<rparr>) k w' =
                       Some (Inr ?v, g2, w')) \<and>
                  Get_twice g k w = Some (Inr ?v, Inr ?v, w3)"
      using first second twice by blast
  }
qed

theorem fallback_to_loader_then_local_hit_witness:
  "Group_Get ((scores 64)\<lparr>getter := failing_getter\<rparr>) ''Tom'' 0 =
     Some (Inl (Errorf ''Tom not exist''), (scores 64)\<lparr>getter := failing_getter\<rparr>, 1) \<and>
   Get_twice (scores 64) ''Tom'' 0 =
     Some (Inr (ByteView ''Tom-value''), Inr (ByteView ''Tom-value''), 1)"
proof -
  let ?pick = "\<lambda>(k :: string) (w :: nat). (Some unreachable_peer, w)"
  let ?f = "(scores 64)\<lparr>getter := failing_getter\<rparr>"
  have 1: "''Tom'' \<noteq> []" by simp
  have f2: "fst (cache_get (mainCache ?f) ''Tom'') = None" by (simp add: scores_def cache_get_def)
  have f3: "''Tom'' \<notin> inflight (loader ?f)" by (simp add: scores_def)
  have f4: "peers ?f = Some ?pick" by (simp add: scores_def)
  have 5: "?pick ''Tom'' 0 = (Some unreachable_peer, 0)" by simp
  have f6: "unreachable_peer (name ?f) ''Tom'' 0 = (Inl (Errorf ''unreachable''), 0)"
    by (simp add: unreachable_peer_def)
  have f7: "getter ?f ''Tom'' 0 = (Inl (Errorf ''Tom not exist''), 1)"
    by (simp add: failing_getter_def)
  from conjunct1[OF fallback_to_loader_then_local_hit[OF 1 f2 f3 f4 5 f6]]
  have A: "Group_Get ?f ''Tom'' 0 = Some (Inl (Errorf ''Tom not exist''), ?f, 1)"
    by (simp add: failing_getter_def)
  have 2: "fst (cache_get (mainCache (scores 64)) ''Tom'') = None"
    by (simp add: scores_def cache_get_def)
  have 3: "''Tom'' \<notin> inflight (loader (scores 64))" by (simp add: scores_def)
  have 4: "peers (scores 64) = Some ?pick" by (simp add: scores_def)
  have 6: "unreachable_peer (name (scores 64)) ''Tom'' 0 = (Inl (Errorf ''unreachable''), 0)"
    by (simp add: unreachable_peer_def)
  have 7: "getter (scores 64) ''Tom'' 0 = (Inr ''Tom-value'', 1)"
    by (simp add: scores_def counting_getter_def)
  have 8: "mainCache_inv (mainCache (scores 64))" by (simp add: scores_def mainCache_inv_def)
  have 9: "cacheBytes (mainCache (scores 64)) = 0 \<or>
         (0 <s cacheBytes (mainCache (scores 64)) \<and>
          entry_bytes Len_ByteView \<lparr>key = ''Tom'', val = ByteView ''Tom-value''\<rparr>
            \<le>s cacheBytes (mainCache (scores 64)))"
    by (simp add: scores_def entry_bytes_def Len_ByteView_def word_sless_alt word_sle_eq)
  from fallback_to_loader_then_local_hit[OF 1 2 3 4 5 6] 7 8 9
  have B: "Get_twice (scores 64) ''Tom'' 0 =
     Some (Inr (ByteView ''Tom-value''), Inr (ByteView ''Tom-value''), 1)"
    by blast
  show ?thesis using A B by simp
qed

text \<open>
  C3 as stated fails: with a capacity of 8 bytes the entry for \<^verbatim>\<open>Tom\<close> (3 + 9 bytes) is
  evicted by the very \<^verbatim>\<open>add\<close> that stores it, and the second \<^verbatim>\<open>Get\<close> calls the loader again
  (the world counts two calls).
\<close>

theorem second_get_reloads_an_oversized_value:
  "Get_twice (scores 8) ''Tom'' 0 =
     Some (Inr (ByteView ''Tom-value''), Inr (ByteView ''Tom-value''), 2)"
  by (simp add: scores_def unreachable_peer_def counting_getter_def group_eval lru_eval)

text \<open>
  C4. When the value of a key comes from a successful fetch from a remote peer,
  \<^verbatim>\<open>Group.Get\<close> returns the remote bytes and leaves the group, and so its local store, as it
  was. Only the local load populates the store: after any \<^verbatim>\<open>Get\<close> that returns, the store
  is untouched, or is what the lookup left (a recency move), or is what \<^verbatim>\<open>add\<close> made of it
  with bytes that the loader returned for that key.
\<close>

theorem remote_value_is_not_cached:
  "(k \<noteq> [] \<and> fst (cache_get (mainCache g) k) = None \<and> k \<notin> inflight (loader g) \<and>
    peers g = Some pick \<and> pick k w = (Some peer, w1) \<and> peer (name g) k w1 = (Inr bytes, w2)
      \<longrightarrow> Group_Get g k w = Some (Inr (ByteView bytes), g, w2)) \<and>
   (Group_Get g k w = Some (r, g', w') \<longrightarrow>
      mainCache g' = mainCache g \<or> mainCache g' = snd (cache_get (mainCache g) k) \<or>
      (\<exists>bs wa wb. getter g k wa = (Inr bs, wb) \<and>
         cache_add (snd (cache_get (mainCache g) k)) k (ByteView bs) wb = Some (mainCache g', w')))"
proof (intro conjI impI)
  assume "Group_Get g k w = Some (r, g', w')"
  then show "mainCache g' = mainCache g \<or> mainCache g' = snd (cache_get (mainCache g) k) \<or>
      (\<exists>bs wa wb. getter g k wa = (Inr bs, wb) \<and>
         cache_add (snd (cache_get (mainCache g) k)) k (ByteView bs) wb = Some (mainCache g', w'))"
    by (rule Group_Get_frame)
next
  assume a: "k \<noteq> [] \<and> fst (cache_get (mainCache g) k) = None \<and> k \<notin> inflight (loader g) \<and>
    peers g = Some pick \<and> pick k w = (Some peer, w1) \<and> peer (name g) k w1 = (Inr bytes, w2)"
  let ?g = "g\<lparr>loader := (loader g)\<lparr>inflight := insert k (inflight (loader g))\<rparr>\<rparr>"
  have miss: "cache_get (mainCache g) k = (None, mainCache g)"
    using a by (simp add: cache_get_miss)
  have peer: "getFromPeer ?g peer k w1 = (Inr (ByteView bytes), w2)"
    using a by (simp add: getFromPeer_def)
  have fn: "load_fn k ?g w = Some (Inr (ByteView bytes), ?g, w2)"
    using a peer by (simp add: load_fn_def)
  have nf: "k \<notin> inflight (loader g)" using a by simp
  have "load g k w = Some (Inr (ByteView bytes),
      ?g\<lparr>loader := (loader ?g)\<lparr>inflight := inflight (loader ?g) - {k}\<rparr>\<rparr>, w2)"
    unfolding load_def by (rule Do_not_inflight[where fn="load_fn k" and g=g and k=k, OF nf fn])
  then have "load g k w = Some (Inr (ByteView bytes), g, w2)"
    using nf by simp
  then show "Group_Get g k w = Some (Inr (ByteView bytes), g, w2)"
    using a miss by (simp add: Group_Get_def)
qed

theorem remote_value_is_not_cached_witness:
  "Group_Get remote_scores ''Tom'' 0 = Some (Inr (ByteView ''scores/Tom''), remote_scores, 0) \<and>
   cache_get (mainCache remote_scores) ''Tom'' = (None, mainCache remote_scores)"
proof -
  have h: "''Tom'' \<noteq> [] \<and> fst (cache_get (mainCache remote_scores) ''Tom'') = None \<and>
    ''Tom'' \<notin> inflight (loader remote_scores) \<and>
    peers remote_scores = Some (\<lambda>k w. (Some remote_peer, w)) \<and>
    (\<lambda>k w. (Some remote_peer, w)) ''Tom'' (0 :: nat) = (Some remote_peer, 0) \<and>
    remote_peer (name remote_scores) ''Tom'' 0 = (Inr ''scores/Tom'', 0)"
    by (simp add: remote_scores_def remote_peer_def cache_get_def)
  note t = remote_value_is_not_cached[of "''Tom''" remote_scores "\<lambda>k w. (Some remote_peer, w)" 0
      remote_peer 0 "''scores/Tom''" 0 "Inr (ByteView ''scores/Tom'')" remote_scores 0]
  from t h have 1: "Group_Get remote_scores ''Tom'' 0 =
      Some (Inr (ByteView ''scores/Tom''), remote_scores, 0)" by blast
  from t 1 have "mainCache remote_scores = mainCache remote_scores \<or>
      mainCache remote_scores = snd (cache_get (mainCache remote_scores) ''Tom'') \<or>
      (\<exists>bs wa wb. getter remote_scores ''Tom'' wa = (Inr bs, wb) \<and>
         cache_add (snd (cache_get (mainCache remote_scores) ''Tom'')) ''Tom'' (ByteView bs) wb
           = Some (mainCache remote_scores, 0))" by blast
  have 2: "cache_get (mainCache remote_scores) ''Tom'' = (None, mainCache remote_scores)"
    by (simp add: remote_scores_def cache_get_def)
  show ?thesis using 1 2 by simp
qed

text \<open>
  C5. For the empty key \<^verbatim>\<open>Group.Get\<close> returns the error "key is required" and does nothing
  else: the group (its store and its in-flight table) and the world (the loader and the
  peers) are as before.
\<close>

theorem empty_key_is_rejected:
  "Group_Get g [] w = Some (Inl (Errorf ''key is required''), g, w)"
  by (simp add: Group_Get_def)

text \<open>
  C6. For a request that names a group that is not registered, the claim expects status
  404 and the body "no such group: " followed by the name. The handler answers 404, but
  its message reads "no suck group: " (and \<^verbatim>\<open>http.Error\<close> appends a newline).
\<close>

theorem unknown_group_reply_misspells_such:
  "ServeHTTP (NewHTTPPool ''http://localhost:8001'') ''/_geecache/scores/Tom''
     \<lparr>groups = Map.empty, group_store = []\<rparr> () =
   Some (Inr (\<lparr>status = 404, Content_Type = Some ''text/plain; charset=utf-8'',
               body = ''no suck group: scores'' @ [CHR 0x0A]\<rparr>,
              \<lparr>groups = Map.empty, group_store = []\<rparr>, ())) \<and>
   ''no suck group: scores'' @ [CHR 0x0A] \<noteq> ''no such group: scores'' \<and>
   ''no suck group: scores'' \<noteq> ''no such group: scores''"
  by (simp add: ServeHTTP_def NewHTTPPool_def defaultBasePath_def HasPrefix_def
      SplitN_slash_2_def GetGroup_def http_Error_def StatusNotFound_def)

text \<open>
  C9. A second \<^verbatim>\<open>NewGroup\<close> with a name that is already registered does not fail. It
  allocates a new group and replaces the registry entry, so \<^verbatim>\<open>GetGroup\<close> then returns the
  new group, not the first one (which still exists, unchanged and unregistered).
\<close>

theorem NewGroup_replaces_registered_name:
  "\<exists>p1 st1 p2 st2.
     NewGroup nm cb1 (Some gt1) st = Inr (p1, st1) \<and>
     GetGroup nm st1 = Some p1 \<and>
     NewGroup nm cb2 (Some gt2) st1 = Inr (p2, st2) \<and>
     GetGroup nm st2 = Some p2 \<and> p2 \<noteq> p1 \<and>
     group_store st2 ! p2 =
       \<lparr>name = nm, getter = gt2, mainCache = \<lparr>cacheBytes = cb2, lru = None\<rparr>,
        peers = None, loader = \<lparr>inflight = {}\<rparr>\<rparr> \<and>
     group_store st2 ! p1 = group_store st1 ! p1"
  by (simp add: NewGroup_def GetGroup_def Let_def nth_append)

end
